theory Spec2Isabelle
  imports Main "HOL-Library.Word" "HOL-Library.Signed_Division"
begin

unbundle bit_operations_syntax

section \<open>The C type \<open>double\<close>\<close>

text \<open>
  The samples of \<^verbatim>\<open>server.c\<close> are C \<^verbatim>\<open>double\<close>s. They are modelled by their
  IEEE 754 binary64 encoding, a 64-bit word: bit 63 is the sign, bits 62..52 the biased
  exponent, bits 51..0 the fraction. Every finite double is an integer multiple of
  \<open>2\<^sup>-\<^sup>1\<^sup>0\<^sup>7\<^sup>4\<close>, so its value is kept as that integer (\<open>d_val\<close>), and the
  arithmetic of the source (\<^verbatim>\<open>+\<close>, \<^verbatim>\<open>/\<close>, \<^verbatim>\<open><\<close>, \<^verbatim>\<open>>\<close> and the conversion from
  \<^verbatim>\<open>int\<close>) is exact integer arithmetic followed by rounding to nearest, ties to even,
  the default rounding mode. An operation that produces a NaN produces the quiet NaN
  \<open>d_nan\<close>; no statement below depends on which NaN it is.
\<close>

type_synonym double = "64 word"

definition d_sign :: "double \<Rightarrow> bool" where
  "d_sign w = bit w 63"

definition d_exp :: "double \<Rightarrow> int" where
  "d_exp w = uint (drop_bit 52 w AND 0x7FF)"

definition d_frac :: "double \<Rightarrow> int" where
  "d_frac w = uint (w AND 0xFFFFFFFFFFFFF)"

definition is_nan :: "double \<Rightarrow> bool" where
  "is_nan w = (d_exp w = 2047 \<and> d_frac w \<noteq> 0)"

definition is_inf :: "double \<Rightarrow> bool" where
  "is_inf w = (d_exp w = 2047 \<and> d_frac w = 0)"

text \<open>The magnitude in units of \<open>2\<^sup>-\<^sup>1\<^sup>0\<^sup>7\<^sup>4\<close>. An infinity gets \<open>2\<^sup>2\<^sup>0\<^sup>9\<^sup>8\<close>, above
  every finite magnitude, so that comparisons need no special case for it.\<close>

definition d_mag :: "double \<Rightarrow> int" where
  "d_mag w = (if d_exp w = 0 then d_frac w
              else (2 ^ 52 + d_frac w) * 2 ^ nat (d_exp w - 1))"

definition d_val :: "double \<Rightarrow> int" where
  "d_val w = (if d_sign w then - d_mag w else d_mag w)"

text \<open>The number of binary digits of a positive integer.\<close>

function bit_length :: "int \<Rightarrow> int" where
  "bit_length n = (if n \<le> 0 then 0 else bit_length (n div 2) + 1)"
  by pat_completeness auto
termination
  by (relation "measure nat") auto

declare bit_length.simps [simp del]

text \<open>The quotient \<open>p / q\<close> (\<open>0 \<le> p\<close>, \<open>0 < q\<close>) rounded to the nearest integer, a tie
  going to the even one: \<open>t\<close> is the quotient rounded down and \<open>r\<close> the remainder.\<close>

definition round_pick :: "int \<Rightarrow> int \<Rightarrow> int \<Rightarrow> int" where
  "round_pick t r q = (if 2 * r > q \<or> (2 * r = q \<and> odd t) then t + 1 else t)"

definition round_half_even :: "int \<Rightarrow> int \<Rightarrow> int" where
  "round_half_even p q = round_pick (p div q) (p mod q) q"

definition d_pack :: "bool \<Rightarrow> int \<Rightarrow> int \<Rightarrow> double" where
  "d_pack s e f =
     (if s then push_bit 63 1 else 0) OR push_bit 52 (word_of_int e) OR word_of_int f"

text \<open>
  \<open>d_round s p q\<close> is the double nearest to \<open>p / q\<close> units (\<open>0 \<le> p\<close>, \<open>0 < q\<close>), with
  sign \<open>s\<close>. \<open>d_shift\<close> gives the number of low bits to drop so that 53 significant
  bits remain (none below \<open>2\<^sup>5\<^sup>3\<close> units, where the spacing of the doubles is one unit);
  \<open>d_finish\<close> encodes the rounded significand \<open>m\<close>: a subnormal number below \<open>2\<^sup>5\<^sup>2\<close>,
  a carry out of the 53 bits moving to the next exponent, and an infinity when the
  exponent passes the largest finite one.
\<close>

definition d_shift :: "int \<Rightarrow> int" where
  "d_shift t = (if t < 2 ^ 53 then 0 else bit_length t - 53)"

definition d_encode :: "bool \<Rightarrow> int \<Rightarrow> int \<Rightarrow> double" where
  "d_encode s e f = (if e \<ge> 2047 then d_pack s 2047 0 else d_pack s e f)"

definition d_finish :: "bool \<Rightarrow> int \<Rightarrow> int \<Rightarrow> double" where
  "d_finish s sh m =
     (if m < 2 ^ 52 then d_encode s 0 m
      else if m < 2 ^ 53 then d_encode s (sh + 1) (m - 2 ^ 52)
      else d_encode s (sh + 2) 0)"

definition d_round_at :: "bool \<Rightarrow> int \<Rightarrow> int \<Rightarrow> int \<Rightarrow> double" where
  "d_round_at s p q sh = d_finish s sh (round_half_even p (q * 2 ^ nat sh))"

definition d_round :: "bool \<Rightarrow> int \<Rightarrow> int \<Rightarrow> double" where
  "d_round s p q = d_round_at s p q (d_shift (p div q))"

text \<open>The double nearest to \<open>v\<close> units, \<open>v\<close> of either sign; an exact zero is negative
  only if \<open>neg_zero\<close>.\<close>

definition d_round_signed :: "bool \<Rightarrow> int \<Rightarrow> double" where
  "d_round_signed neg_zero v = d_round (v < 0 \<or> (v = 0 \<and> neg_zero)) \<bar>v\<bar> 1"

definition d_nan :: double where
  "d_nan = 0x7FF8000000000000"

text \<open>\<^verbatim>\<open>a + b\<close> on doubles. The exact sum of two finite doubles is a whole number of
  units; a sum that is exactly zero is \<open>-0\<close> only when both operands are negative.\<close>

definition dadd :: "double \<Rightarrow> double \<Rightarrow> double" where
  "dadd a b =
     (if is_nan a \<or> is_nan b then d_nan
      else if is_inf a then (if is_inf b \<and> d_sign a \<noteq> d_sign b then d_nan else a)
      else if is_inf b then b
      else d_round_signed (d_sign a \<and> d_sign b) (d_val a + d_val b))"

text \<open>The conversion of a C \<^verbatim>\<open>int\<close> to \<^verbatim>\<open>double\<close> (exact below \<open>2\<^sup>5\<^sup>3\<close>).\<close>

definition d_of_int :: "int \<Rightarrow> double" where
  "d_of_int n = d_round_signed False (n * 2 ^ 1074)"

text \<open>\<^verbatim>\<open>a / b\<close> on doubles: the sign is the exclusive or of the signs; the quotient of
  the two magnitudes, in units, is \<open>d_mag a * 2\<^sup>1\<^sup>0\<^sup>7\<^sup>4 / d_mag b\<close>.\<close>

definition ddiv :: "double \<Rightarrow> double \<Rightarrow> double" where
  "ddiv a b =
     (if is_nan a \<or> is_nan b then d_nan
      else if is_inf a then (if is_inf b then d_nan else d_pack (d_sign a \<noteq> d_sign b) 2047 0)
      else if is_inf b then d_pack (d_sign a \<noteq> d_sign b) 0 0
      else if d_mag b = 0
        then (if d_mag a = 0 then d_nan else d_pack (d_sign a \<noteq> d_sign b) 2047 0)
      else d_round (d_sign a \<noteq> d_sign b) (d_mag a * 2 ^ 1074) (d_mag b))"

text \<open>\<^verbatim>\<open>a < b\<close> and \<^verbatim>\<open>a <= b\<close> on doubles: false as soon as one side is a NaN; the two
  zeros are equal.\<close>

definition dless :: "double \<Rightarrow> double \<Rightarrow> bool" where
  "dless a b = (\<not> is_nan a \<and> \<not> is_nan b \<and> d_val a < d_val b)"

definition dle :: "double \<Rightarrow> double \<Rightarrow> bool" where
  "dle a b = (\<not> is_nan a \<and> \<not> is_nan b \<and> d_val a \<le> d_val b)"

section \<open>The circular buffer of \<^verbatim>\<open>server.c\<close>\<close>

text \<open>
  \<^verbatim>\<open>
  #define MAX_SAMPLES 1024
  typedef struct {
      double samples[MAX_SAMPLES];
      int head;
      int count;
      pthread_mutex_t buf_mutex;
  } circbuf_t;
  static circbuf_t buffer;
  \<close>
  The two \<^verbatim>\<open>int\<close> fields are mathematical integers here; \<open>wf_buf\<close> below bounds them
  by \<open>MAX_SAMPLES\<close> in every state the program reaches, so that no C addition overflows.
  Each function body runs between \<^verbatim>\<open>pthread_mutex_lock\<close> and \<^verbatim>\<open>pthread_mutex_unlock\<close> of
  \<^verbatim>\<open>buf_mutex\<close>, hence as one step; the mutex itself is not part of the state.
  \<^verbatim>\<open>buffer\<close> has static storage: its array starts as all zero bits.
\<close>

definition MAX_SAMPLES :: int where
  "MAX_SAMPLES = 1024"

record circbuf =
  samples :: "double list"
  head :: int
  count :: int

definition buffer_static :: circbuf where
  "buffer_static = \<lparr>samples = replicate (nat MAX_SAMPLES) 0, head = 0, count = 0\<rparr>"

definition buffer_init :: "circbuf \<Rightarrow> circbuf" where
  "buffer_init b = b\<lparr>head := 0, count := 0\<rparr>"

text \<open>
  \<^verbatim>\<open>
  b->samples[b->head] = val;
  b->head = (b->head + 1) % MAX_SAMPLES;
  if (b->count < MAX_SAMPLES) b->count++;
  \<close>
  C's \<^verbatim>\<open>%\<close> truncates towards zero: \<open>smod\<close>.
\<close>

definition buffer_push :: "circbuf \<Rightarrow> double \<Rightarrow> circbuf" where
  "buffer_push b val =
     b\<lparr>samples := (samples b)[nat (head b) := val],
       head := (head b + 1) smod MAX_SAMPLES,
       count := (if count b < MAX_SAMPLES then count b + 1 else count b)\<rparr>"

text \<open>The index read by the \<open>i\<close>-th round of the loop of \<^verbatim>\<open>buffer_compute_stats\<close>:
  \<^verbatim>\<open>(b->head + MAX_SAMPLES - b->count + i) % MAX_SAMPLES\<close>.\<close>

definition slot :: "circbuf \<Rightarrow> int \<Rightarrow> int" where
  "slot b i = (head b + MAX_SAMPLES - count b + i) smod MAX_SAMPLES"

text \<open>
  \<^verbatim>\<open>
  for (int i = 0; i < b->count; ++i) {
      double v = b->samples[(b->head + MAX_SAMPLES - b->count + i) % MAX_SAMPLES];
      sum += v;
      if (v < mm) mm = v;
      if (v > Mx) Mx = v;
  }
  \<close>
  \<^verbatim>\<open>v > Mx\<close> is \<open>dless Mx v\<close>.
\<close>

function stats_loop :: "circbuf \<Rightarrow> int \<Rightarrow> double \<times> double \<times> double \<Rightarrow> double \<times> double \<times> double" where
  "stats_loop b i (acc, mm, Mx) =
     (if i < count b then
        let v = samples b ! nat (slot b i)
        in stats_loop b (i + 1)
             (dadd acc v, if dless v mm then v else mm, if dless Mx v then v else Mx)
      else (acc, mm, Mx))"
  by pat_completeness auto
termination
  by (relation "measure (\<lambda>(b, i, st). nat (count b - i))") auto

declare stats_loop.simps [simp del]

text \<open>
  \<^verbatim>\<open>buffer_compute_stats\<close> returns through four pointers; the model returns the
  quadruple \<open>(avg, min, max, count)\<close>. The accumulator \<^verbatim>\<open>sum\<close> is \<open>acc\<close>.
  \<^verbatim>\<open>
  if (b->count == 0) { *avg = 0.0; *min = 0.0; *max = 0.0; *count = 0; return; }
  double sum = 0.0;
  double mm = b->samples[0];
  double Mx = b->samples[0];
  for ...
  *avg = sum / b->count;  *min = mm;  *max = Mx;  *count = b->count;
  \<close>
\<close>

definition buffer_compute_stats :: "circbuf \<Rightarrow> double \<times> double \<times> double \<times> int" where
  "buffer_compute_stats b =
     (if count b = 0 then (0, 0, 0, 0)
      else case stats_loop b 0 (0, samples b ! 0, samples b ! 0) of
             (acc, mm, Mx) \<Rightarrow> (ddiv acc (d_of_int (count b)), mm, Mx, count b))"

text \<open>The four results by name.\<close>

definition stat_avg :: "double \<times> double \<times> double \<times> int \<Rightarrow> double" where
  "stat_avg r = fst r"

definition stat_min :: "double \<times> double \<times> double \<times> int \<Rightarrow> double" where
  "stat_min r = fst (snd r)"

definition stat_max :: "double \<times> double \<times> double \<times> int \<Rightarrow> double" where
  "stat_max r = fst (snd (snd r))"

definition stat_count :: "double \<times> double \<times> double \<times> int \<Rightarrow> int" where
  "stat_count r = snd (snd (snd r))"

text \<open>The buffer after \<^verbatim>\<open>buffer_init\<close> and the pushes of \<open>vs\<close>, oldest first.\<close>

definition pushes :: "double list \<Rightarrow> circbuf" where
  "pushes vs = foldl buffer_push (buffer_init buffer_static) vs"

text \<open>The entries the loop reads, in the order it reads them.\<close>

definition retained :: "circbuf \<Rightarrow> double list" where
  "retained b = map (\<lambda>i. samples b ! nat (slot b (int i))) [0..<nat (count b)]"

text \<open>The loop body as a function of the value read.\<close>

definition scan_step :: "double \<Rightarrow> double \<times> double \<times> double \<Rightarrow> double \<times> double \<times> double" where
  "scan_step v st =
     (case st of (acc, mm, Mx) \<Rightarrow>
        (dadd acc v, if dless v mm then v else mm, if dless Mx v then v else Mx))"

text \<open>The states of the buffer that pushes from the initial state reach: the array has
  its \<open>MAX_SAMPLES\<close> cells, \<open>head\<close> and \<open>count\<close> are in range, and until the buffer is
  full \<open>head\<close> is \<open>count\<close> (the cells \<open>0 .. count - 1\<close> are the ones written).\<close>

definition wf_buf :: "circbuf \<Rightarrow> bool" where
  "wf_buf b \<longleftrightarrow>
     length (samples b) = nat MAX_SAMPLES \<and> 0 \<le> head b \<and> head b < MAX_SAMPLES \<and>
     0 \<le> count b \<and> count b \<le> MAX_SAMPLES \<and> (count b < MAX_SAMPLES \<longrightarrow> head b = count b)"

text \<open>The index of the logical oldest entry: the one the loop reads first.\<close>

definition oldest_index :: "circbuf \<Rightarrow> int" where
  "oldest_index b = slot b 0"

text \<open>The specification speaks of the exact average of the values pushed: a finite
  double is the exact average of a list of finite doubles when its value times the
  number of entries is the sum of their values.\<close>

definition is_exact_average :: "double list \<Rightarrow> double \<Rightarrow> bool" where
  "is_exact_average vs a \<longleftrightarrow>
     \<not> is_nan a \<and> \<not> is_inf a \<and> d_val a * int (length vs) = sum_list (map d_val vs)"

section \<open>Formatted output\<close>

text \<open>
  \<^verbatim>\<open>printf\<close> and \<^verbatim>\<open>snprintf\<close> belong to the C library. Their conversions are modelled as
  the C standard describes them: \<^verbatim>\<open>%d\<close> writes the decimal digits with a leading
  minus sign for negative numbers; \<^verbatim>\<open>%.3f\<close> writes the value rounded to three decimals
  (the exact binary value is rounded, to nearest and ties to even), an infinity as
  \<^verbatim>\<open>inf\<close> and a NaN as \<^verbatim>\<open>nan\<close>, each with a minus sign when the sign bit is set.
\<close>

definition digit :: "int \<Rightarrow> char" where
  "digit d = ''0123456789'' ! nat d"

function dec_digits :: "int \<Rightarrow> string" where
  "dec_digits n = (if n < 10 then [digit n] else dec_digits (n div 10) @ [digit (n mod 10)])"
  by pat_completeness auto
termination
  by (relation "measure nat") auto

declare dec_digits.simps [simp del]

definition fmt_d :: "int \<Rightarrow> string" where
  "fmt_d n = (if n < 0 then ''-'' @ dec_digits (- n) else dec_digits n)"

definition fmt_f3 :: "double \<Rightarrow> string" where
  "fmt_f3 w =
     (if d_sign w then ''-'' else []) @
     (if is_nan w then ''nan''
      else if is_inf w then ''inf''
      else let r = round_half_even (d_mag w * 1000) (2 ^ 1074)
           in dec_digits (r div 1000) @ ''.'' @
              [digit (r mod 1000 div 100), digit (r mod 100 div 10), digit (r mod 10)])"

text \<open>\<^verbatim>\<open>snprintf(buf, n, ...)\<close> with \<open>0 < n\<close>, where \<open>text\<close> is the whole formatted
  output: at most \<open>n - 1\<close> characters are stored, then a NUL; the value returned is
  the length of the whole output, stored or not.\<close>

definition NUL :: char where
  "NUL = CHR 0x00"

definition snprintf :: "nat \<Rightarrow> string \<Rightarrow> string \<times> int" where
  "snprintf n text = (take (n - 1) text @ [NUL], int (length text))"

section \<open>The server\<close>

text \<open>
  \<^verbatim>\<open>
  typedef struct { int type; pid_t pid; double temp; } temp_msg_t;
  typedef struct { pthread_mutex_t mutex; double avg; double minimum; double maximum;
                   int count; time_t last_updated; } shared_stats_t;
  \<close>
  \<^verbatim>\<open>pid_t\<close> is a 32-bit signed integer. A \<^verbatim>\<open>time_t\<close> is only stored, never computed
  with: an integer. The \<^verbatim>\<open>count\<close> of the shared block is \<open>shm_count\<close> here.
\<close>

record temp_msg =
  mtype :: "32 word"
  pid :: "32 word"
  temp :: double

record shared_stats =
  avg :: double
  minimum :: double
  maximum :: double
  shm_count :: int
  last_updated :: int

text \<open>The calls with an effect outside the local variables, in the order made.\<close>

datatype event =
    Perror string
  | Printf string
  | BufferPush double
  | ShmTouch int
  | ShmPublish "double \<times> double \<times> double \<times> int" int
  | MsgReply int string int

record server =
  buffer :: circbuf
  shm_stats :: shared_stats
  timer_vars :: "double \<times> double \<times> double \<times> int"
  trace :: "event list"

definition PERIOD_SECONDS :: int where
  "PERIOD_SECONDS = 5"

definition REPLY_SIZE :: nat where
  "REPLY_SIZE = 128"

definition emit :: "event \<Rightarrow> server \<Rightarrow> server" where
  "emit e st = st\<lparr>trace := trace st @ [e]\<rparr>"

text \<open>\<^verbatim>\<open>"[server] Received from pid=%d temp=%.3f\n"\<close>\<close>

definition received_line :: "temp_msg \<Rightarrow> string" where
  "received_line m =
     ''[server] Received from pid='' @ fmt_d (sint (pid m)) @ '' temp='' @ fmt_f3 (temp m) @
     [CHR 0x0A]"

text \<open>\<^verbatim>\<open>"ACK: received %.3f from pid %d"\<close>\<close>

definition ack_text :: "temp_msg \<Rightarrow> string" where
  "ack_text m = ''ACK: received '' @ fmt_f3 (temp m) @ '' from pid '' @ fmt_d (sint (pid m))"

text \<open>\<^verbatim>\<open>"[server] Periodic stats: count=%d avg=%.3f min=%.3f max=%.3f\n"\<close>\<close>

definition periodic_line :: "double \<times> double \<times> double \<times> int \<Rightarrow> string" where
  "periodic_line r =
     (case r of (a, mn, mx, c) \<Rightarrow>
        ''[server] Periodic stats: count='' @ fmt_d c @ '' avg='' @ fmt_f3 a @
        '' min='' @ fmt_f3 mn @ '' max='' @ fmt_f3 mx @ [CHR 0x0A])"

text \<open>
  One round of the message loop of \<^verbatim>\<open>main\<close>. \<open>rcvid\<close> and \<open>rmsg\<close> are what
  \<^verbatim>\<open>MsgReceive\<close> returned and stored, \<open>now\<close> is what \<^verbatim>\<open>time(NULL)\<close> returns in this round.
  \<^verbatim>\<open>
  int rcvid = MsgReceive(attach->chid, &rmsg, sizeof(rmsg), NULL);
  if (rcvid == -1) { perror("MsgReceive"); continue; }
  printf("[server] Received from pid=%d temp=%.3f\n", rmsg.pid, rmsg.temp);
  buffer_push(&buffer, rmsg.temp);
  pthread_mutex_lock(&shm_stats->mutex);
  shm_stats->last_updated = time(NULL);
  pthread_mutex_unlock(&shm_stats->mutex);
  char reply_msg[128];
  int written = snprintf(reply_msg, sizeof(reply_msg),
                         "ACK: received %.3f from pid %d", rmsg.temp, rmsg.pid);
  MsgReply(rcvid, EOK, reply_msg, written + 1);
  \<close>
  The event \<open>MsgReply rcvid bytes n\<close> carries the bytes \<^verbatim>\<open>snprintf\<close> stored in
  \<^verbatim>\<open>reply_msg\<close> and the length \<open>n\<close> passed to \<^verbatim>\<open>MsgReply\<close>.
\<close>

definition listener_iter :: "server \<Rightarrow> int \<Rightarrow> temp_msg \<Rightarrow> int \<Rightarrow> server" where
  "listener_iter st rcvid rmsg now =
     (if rcvid = - 1 then emit (Perror ''MsgReceive'') st
      else
        let st1 = emit (Printf (received_line rmsg)) st;
            st2 = emit (BufferPush (temp rmsg))
                    (st1\<lparr>buffer := buffer_push (buffer st1) (temp rmsg)\<rparr>);
            st3 = emit (ShmTouch now)
                    (st2\<lparr>shm_stats := (shm_stats st2)\<lparr>last_updated := now\<rparr>\<rparr>)
        in case snprintf REPLY_SIZE (ack_text rmsg) of
             (reply_msg, written) \<Rightarrow> emit (MsgReply rcvid reply_msg (written + 1)) st3)"

text \<open>
  The four parts of a round with an accepted reading, one by one. The buffer's mutex
  is held only inside \<^verbatim>\<open>buffer_push\<close> and the shared block's mutex only around the
  write of \<^verbatim>\<open>last_updated\<close>, so steps of the timer thread may fall between the parts.
\<close>

definition listener_log :: "temp_msg \<Rightarrow> server \<Rightarrow> server" where
  "listener_log rmsg st = emit (Printf (received_line rmsg)) st"

definition listener_push :: "temp_msg \<Rightarrow> server \<Rightarrow> server" where
  "listener_push rmsg st =
     emit (BufferPush (temp rmsg)) (st\<lparr>buffer := buffer_push (buffer st) (temp rmsg)\<rparr>)"

definition listener_touch :: "int \<Rightarrow> server \<Rightarrow> server" where
  "listener_touch now st =
     emit (ShmTouch now) (st\<lparr>shm_stats := (shm_stats st)\<lparr>last_updated := now\<rparr>\<rparr>)"

definition listener_reply :: "int \<Rightarrow> temp_msg \<Rightarrow> server \<Rightarrow> server" where
  "listener_reply rcvid rmsg st =
     (case snprintf REPLY_SIZE (ack_text rmsg) of
        (reply_msg, written) \<Rightarrow> emit (MsgReply rcvid reply_msg (written + 1)) st)"

text \<open>
  One round of \<^verbatim>\<open>timer_thread\<close>, after its \<^verbatim>\<open>sleep(PERIOD_SECONDS)\<close>, in its two
  critical sections.
  \<^verbatim>\<open>
  double avg, min, max;
  int count;
  buffer_compute_stats(&buffer, &avg, &min, &max, &count);
  \<close>
  runs under \<^verbatim>\<open>buf_mutex\<close> and leaves its four results in the local variables of
  \<^verbatim>\<open>timer_thread\<close>, the field \<open>timer_vars\<close> of the state: \<open>timer_compute\<close>.
  \<^verbatim>\<open>
  pthread_mutex_lock(&shm_stats->mutex);
  shm_stats->avg = avg;  shm_stats->minimum = min;  shm_stats->maximum = max;
  shm_stats->count = count;  shm_stats->last_updated = time(NULL);
  pthread_mutex_unlock(&shm_stats->mutex);
  printf("[server] Periodic stats: count=%d avg=%.3f min=%.3f max=%.3f\n", ...);
  \<close>
  comes later, under the mutex of the shared block, and writes what the local variables
  hold then: \<open>timer_publish\<close>, where \<open>now\<close> is what \<^verbatim>\<open>time(NULL)\<close> returns. Rounds of
  the message loop may run between the two.
\<close>

definition timer_compute :: "server \<Rightarrow> server" where
  "timer_compute st = st\<lparr>timer_vars := buffer_compute_stats (buffer st)\<rparr>"

definition timer_publish :: "server \<Rightarrow> int \<Rightarrow> server" where
  "timer_publish st now =
     (case timer_vars st of (a, mn, mx, c) \<Rightarrow>
        emit (Printf (periodic_line (timer_vars st)))
          (emit (ShmPublish (timer_vars st) now)
             (st\<lparr>shm_stats := (shm_stats st)
                    \<lparr>avg := a, minimum := mn, maximum := mx, shm_count := c,
                     last_updated := now\<rparr>\<rparr>)))"

text \<open>The state \<^verbatim>\<open>main\<close> builds before the loop (every start-up call succeeding);
  \<open>now\<close> is what \<^verbatim>\<open>time(NULL)\<close> returned. The local variables of \<^verbatim>\<open>timer_thread\<close> are
  not read before \<^verbatim>\<open>buffer_compute_stats\<close> has written them; they start as zeros here.\<close>

definition server_init :: "int \<Rightarrow> server" where
  "server_init now =
     \<lparr>buffer = buffer_init buffer_static,
      shm_stats = \<lparr>avg = 0, minimum = 0, maximum = 0, shm_count = 0, last_updated = now\<rparr>,
      timer_vars = (0, 0, 0, 0),
      trace = []\<rparr>"

text \<open>
  The two threads meet only in the buffer and in the shared block, each under its mutex.
  A run of the server is a sequence of steps of either thread, in the order in which
  they take effect: a round of the message loop, the aggregate computation of the
  timer thread, or its write of the shared block. The loops never exit, and a finite
  list of steps is a prefix of the run.
\<close>

datatype action = Receive int temp_msg int | TimerCompute | TimerPublish int

fun step :: "server \<Rightarrow> action \<Rightarrow> server" where
  "step st (Receive rcvid rmsg now) = listener_iter st rcvid rmsg now"
| "step st TimerCompute = timer_compute st"
| "step st (TimerPublish now) = timer_publish st now"

definition run :: "server \<Rightarrow> action list \<Rightarrow> server" where
  "run st acts = foldl step st acts"

fun is_push :: "event \<Rightarrow> bool" where
  "is_push (BufferPush v) = True"
| "is_push e = False"

fun is_reply :: "event \<Rightarrow> bool" where
  "is_reply (MsgReply r bytes n) = True"
| "is_reply e = False"

fun failed :: "action \<Rightarrow> bool" where
  "failed (Receive rcvid rmsg now) = (rcvid = - 1)"
| "failed a = False"

fun is_receive :: "action \<Rightarrow> bool" where
  "is_receive (Receive rcvid rmsg now) = True"
| "is_receive a = False"

fun is_timer :: "action \<Rightarrow> bool" where
  "is_timer (Receive rcvid rmsg now) = False"
| "is_timer a = True"

text \<open>One publish cycle of the timer thread from the state \<open>st\<close>: the aggregate is
  computed, the steps \<open>acts\<close> of the message loop fall before the write, and the
  shared block is written at clock reading \<open>now\<close>.\<close>

definition publish_cycle :: "server \<Rightarrow> action list \<Rightarrow> int \<Rightarrow> server" where
  "publish_cycle st acts now = step (run (step st TimerCompute) acts) (TimerPublish now)"

text \<open>The state in which the message loop calls \<^verbatim>\<open>MsgReply\<close> for the reading \<open>rmsg\<close>
  accepted in the state \<open>st\<close>, when the steps \<open>ts0\<close> of the timer thread fall between
  the log line and \<^verbatim>\<open>buffer_push\<close>, the steps \<open>ts1\<close> between \<^verbatim>\<open>buffer_push\<close> and the
  touch of the shared block, and the steps \<open>ts2\<close> between the touch and \<^verbatim>\<open>MsgReply\<close>.\<close>

definition before_reply ::
  "server \<Rightarrow> temp_msg \<Rightarrow> int \<Rightarrow> action list \<Rightarrow> action list \<Rightarrow> action list \<Rightarrow> server"
  where
  "before_reply st rmsg now ts0 ts1 ts2 =
     run (listener_touch now
            (run (listener_push rmsg (run (listener_log rmsg st) ts0)) ts1)) ts2"


text \<open>
  \<open>pending n tr\<close> reads a trace from a point where \<open>n\<close> pushes have not been replied
  to yet: each \<open>BufferPush\<close> adds one, each \<open>MsgReply\<close> takes one away and is an error
  (\<open>None\<close>) when there is none to take. The result is the number left at the end.
\<close>

fun pending :: "nat \<Rightarrow> event list \<Rightarrow> nat option" where
  "pending n [] = Some n"
| "pending n (e # es) =
     (if is_push e then pending (Suc n) es
      else if is_reply e then (if n = 0 then None else pending (n - 1) es)
      else pending n es)"

section \<open>Lemmas: the double arithmetic\<close>

lemma block_bounds:
  fixes n :: int
  assumes "2 ^ a \<le> n div 2 ^ c" "n div 2 ^ c < 2 ^ b"
  shows "2 ^ (a + c) \<le> n \<and> n < 2 ^ (b + c)"
proof -
  have p: "(0::int) < 2 ^ c" by simp
  have "2 ^ a * 2 ^ c \<le> (n div 2 ^ c) * (2 ^ c :: int)"
    using assms(1) by (rule mult_right_mono) simp
  also have "\<dots> \<le> n"
    using p by (metis mult.commute mult_div_mod_eq le_add_same_cancel1 pos_mod_sign)
  finally have 1: "2 ^ (a + c) \<le> n" by (simp add: power_add)
  have "n div 2 ^ c + 1 \<le> 2 ^ b" using assms(2) by simp
  then have "(n div 2 ^ c + 1) * 2 ^ c \<le> 2 ^ b * (2 ^ c :: int)"
    by (rule mult_right_mono) simp
  moreover have "n < (n div 2 ^ c + 1) * 2 ^ c"
  proof -
    have "n = (n div 2 ^ c) * 2 ^ c + n mod 2 ^ c" by (rule div_mult_mod_eq [symmetric])
    moreover have "n mod 2 ^ c < 2 ^ c" using p by (rule pos_mod_bound)
    ultimately have "n < (n div 2 ^ c) * 2 ^ c + 2 ^ c" by linarith
    then show ?thesis by (simp add: algebra_simps)
  qed
  ultimately have "n < 2 ^ b * 2 ^ c" by linarith
  then have 2: "n < 2 ^ (b + c)" by (simp add: power_add)
  from 1 2 show ?thesis ..
qed

lemma bit_length_bounds:
  "0 < n \<Longrightarrow> 0 < bit_length n \<and> 2 ^ nat (bit_length n - 1) \<le> n \<and> n < 2 ^ nat (bit_length n)"
proof (induction n rule: bit_length.induct)
  case (1 n)
  show ?case
  proof (cases "n = 1")
    case True
    then show ?thesis
      by (simp add: bit_length.simps [of 1] bit_length.simps [of 0])
  next
    case False
    with "1.prems" have m: "0 < n div 2" by simp
    have eq: "bit_length n = bit_length (n div 2) + 1"
      using "1.prems" by (simp add: bit_length.simps [of n])
    from "1.prems" m have ih: "0 < bit_length (n div 2) \<and>
        2 ^ nat (bit_length (n div 2) - 1) \<le> n div 2 \<and> n div 2 < 2 ^ nat (bit_length (n div 2))"
      by (intro "1.IH") simp_all
    from ih have pos: "0 < bit_length (n div 2)" by simp
    from block_bounds [of "nat (bit_length (n div 2) - 1)" n 1 "nat (bit_length (n div 2))"] ih
    have "2 ^ (nat (bit_length (n div 2) - 1) + 1) \<le> n"
      and "n < 2 ^ (nat (bit_length (n div 2)) + 1)" by simp_all
    moreover have "nat (bit_length n - 1) = nat (bit_length (n div 2) - 1) + 1"
      using pos by (simp add: eq nat_add_distrib)
    moreover have "nat (bit_length n) = nat (bit_length (n div 2)) + 1"
      using pos by (simp add: eq nat_add_distrib)
    ultimately show ?thesis using pos by (simp add: eq)
  qed
qed

lemma bit_length_eq:
  assumes "2 ^ k \<le> n" "n < 2 ^ Suc k"
  shows "bit_length n = int (Suc k)"
proof -
  have "(0::int) < 2 ^ k" by simp
  with assms(1) have pos: "0 < n" by linarith
  note b = bit_length_bounds [OF pos]
  have "(2::int) ^ nat (bit_length n - 1) < 2 ^ Suc k" using b assms(2) by linarith
  then have 1: "nat (bit_length n - 1) < Suc k" by (simp only: power_strict_increasing_iff) 
  have "(2::int) ^ k < 2 ^ nat (bit_length n)" using b assms(1) by linarith
  then have 2: "k < nat (bit_length n)" by (simp only: power_strict_increasing_iff) 
  from 1 2 b show ?thesis by linarith
qed

text \<open>Rounding in the normal range, where the quotient has more than 53 bits: the
  number of bits dropped follows from two comparisons.\<close>

lemma d_round_normal:
  assumes "0 < q" "2 ^ k * q \<le> p" "p < 2 ^ Suc k * q" "53 \<le> k"
  shows "d_round s p q = d_finish s (int k - 52) (round_half_even p (q * 2 ^ (k - 52)))"
proof -
  have "(2 ^ k * q) div q \<le> p div q"
    using assms(2,1) by (rule zdiv_mono1)
  then have lo: "2 ^ k \<le> p div q" using assms(1) by simp
  have hi: "p div q < 2 ^ Suc k"
  proof (rule ccontr)
    assume "\<not> p div q < 2 ^ Suc k"
    then have "2 ^ Suc k \<le> p div q" by simp
    then have "2 ^ Suc k * q \<le> (p div q) * q"
      using assms(1) by (intro mult_right_mono) simp_all
    also have "\<dots> \<le> p"
      using assms(1) by (metis div_mult_mod_eq le_add_same_cancel1 pos_mod_sign)
    finally show False using assms(3) by simp
  qed
  have bl: "bit_length (p div q) = int (Suc k)" using lo hi by (rule bit_length_eq)
  have "(2::int) ^ 53 \<le> 2 ^ k" using assms(4) by (intro power_increasing) simp_all
  with lo have "\<not> p div q < 2 ^ 53" by linarith
  then have "d_shift (p div q) = int k - 52" by (simp add: d_shift_def bl)
  moreover have "nat (int k - 52) = k - 52" by simp
  ultimately show ?thesis by (simp add: d_round_def d_round_at_def)
qed

lemmas e_defs = dadd_def ddiv_def d_of_int_def d_round_signed_def
  d_finish_def d_encode_def d_pack_def round_half_even_def round_pick_def
  d_val_def d_mag_def d_sign_def d_exp_def d_frac_def is_nan_def is_inf_def

text \<open>Rounding depends on the quotient only: a common factor cancels.\<close>

lemma round_half_even_scale:
  assumes "0 < c"
  shows "round_half_even (p * c) (q * c) = round_half_even p q"
proof -
  have 1: "2 * (p mod q * c) > q * c \<longleftrightarrow> 2 * (p mod q) > q"
    using assms by (metis mult.assoc mult_less_cancel_right_pos)
  have 2: "2 * (p mod q * c) = q * c \<longleftrightarrow> 2 * (p mod q) = q"
    using assms by (metis mult.assoc mult_cancel_right less_irrefl)
  show ?thesis
    using assms by (simp add: round_half_even_def round_pick_def 1 2)
qed

lemma d_round_scale:
  assumes "0 < c"
  shows "d_round s (p * c) (q * c) = d_round s p q"
proof -
  have "round_half_even (p * c) (q * c * 2 ^ n) = round_half_even p (q * 2 ^ n)" for n
    using round_half_even_scale [OF assms, of p "q * 2 ^ n"] by (simp add: ac_simps)
  then show ?thesis
    using assms by (simp add: d_round_def d_round_at_def)
qed

lemma ddiv_finite:
  assumes "\<not> is_nan a" "\<not> is_nan b" "\<not> is_inf a" "\<not> is_inf b" "d_mag b \<noteq> 0"
  shows "ddiv a b = d_round (d_sign a \<noteq> d_sign b) (d_mag a * 2 ^ 1074) (d_mag b)"
  using assms by (simp add: ddiv_def)

text \<open>
  The double nearest to 0.1 is \<open>0x3FB999999999999A\<close>. Three of them added to \<open>0.0\<close> in
  double arithmetic give \<open>0x3FD3333333333334\<close> (0.30000000000000004), and that sum
  divided by 3.0 gives \<open>0x3FB999999999999B\<close>, the double just above the one nearest to 0.1.
\<close>

lemma tenth_sum_1: "dadd 0 0x3FB999999999999A = 0x3FB999999999999A"
  by (simp add: e_defs d_round_normal [of _ 1070])

lemma tenth_sum_2: "dadd 0x3FB999999999999A 0x3FB999999999999A = 0x3FC999999999999A"
  by (simp add: e_defs d_round_normal [of _ 1071])

lemma tenth_sum_3: "dadd 0x3FC999999999999A 0x3FB999999999999A = 0x3FD3333333333334"
  by (simp add: e_defs d_round_normal [of _ 1072])

lemma three_as_double: "d_of_int 3 = 0x4008000000000000"
  by (simp add: e_defs d_round_normal [of _ 1075])

lemma tenth_quotient: "ddiv 0x3FD3333333333334 0x4008000000000000 = 0x3FB999999999999B"
proof -
  have c: "\<not> is_nan 0x3FD3333333333334" "\<not> is_nan 0x4008000000000000"
    "\<not> is_inf 0x3FD3333333333334" "\<not> is_inf 0x4008000000000000"
    "\<not> d_sign 0x3FD3333333333334" "\<not> d_sign 0x4008000000000000"
    by (simp_all add: is_nan_def is_inf_def d_sign_def d_exp_def d_frac_def)
  have m: "d_mag 0x4008000000000000 = 3 * 2 ^ 1074"
    by (simp add: d_mag_def d_exp_def d_frac_def)
  then have "d_mag 0x4008000000000000 \<noteq> 0" by simp
  with c have "ddiv 0x3FD3333333333334 0x4008000000000000
      = d_round False (d_mag 0x3FD3333333333334 * 2 ^ 1074) (3 * 2 ^ 1074)"
    by (simp only: ddiv_finite m simp_thms)
  also have "\<dots> = d_round False (d_mag 0x3FD3333333333334) 3"
    by (rule d_round_scale) simp
  also have "\<dots> = 0x3FB999999999999B"
    by (simp add: e_defs d_round_normal [of _ 1070])
  finally show ?thesis .
qed

lemma tenth_properties:
  "\<not> is_nan 0x3FB999999999999A" "\<not> is_inf 0x3FB999999999999A"
  "\<not> is_nan 0x3FB999999999999B" "\<not> is_inf 0x3FB999999999999B"
  "d_val 0x3FB999999999999A < d_val 0x3FB999999999999B"
  by (simp_all add: is_nan_def is_inf_def d_val_def d_mag_def d_sign_def d_exp_def d_frac_def)

text \<open>The doubles 20.0, 25.0 and 30.0 added to \<open>0.0\<close> give 20.0, 45.0 and 75.0, and 75.0
  divided by 3.0 gives 25.0.\<close>

lemma spec_example_sum:
  "dadd 0 0x4034000000000000 = 0x4034000000000000"
  "dadd 0x4034000000000000 0x4039000000000000 = 0x4046800000000000"
  "dadd 0x4046800000000000 0x403E000000000000 = 0x4052C00000000000"
  by (simp_all add: e_defs d_round_normal [of _ 1078] d_round_normal [of _ 1079]
      d_round_normal [of _ 1080])

lemma spec_example_quotient: "ddiv 0x4052C00000000000 0x4008000000000000 = 0x4039000000000000"
proof -
  have c: "\<not> is_nan 0x4052C00000000000" "\<not> is_nan 0x4008000000000000"
    "\<not> is_inf 0x4052C00000000000" "\<not> is_inf 0x4008000000000000"
    "\<not> d_sign 0x4052C00000000000" "\<not> d_sign 0x4008000000000000"
    by (simp_all add: is_nan_def is_inf_def d_sign_def d_exp_def d_frac_def)
  have m: "d_mag 0x4008000000000000 = 3 * 2 ^ 1074"
    by (simp add: d_mag_def d_exp_def d_frac_def)
  then have "d_mag 0x4008000000000000 \<noteq> 0" by simp
  with c have "ddiv 0x4052C00000000000 0x4008000000000000
      = d_round False (d_mag 0x4052C00000000000 * 2 ^ 1074) (3 * 2 ^ 1074)"
    by (simp only: ddiv_finite m simp_thms)
  also have "\<dots> = d_round False (d_mag 0x4052C00000000000) 3"
    by (rule d_round_scale) simp
  also have "\<dots> = 0x4039000000000000"
    by (simp add: e_defs d_round_normal [of _ 1078])
  finally show ?thesis .
qed

section \<open>Lemmas: the circular buffer\<close>

lemma smod_nonneg: "0 \<le> a \<Longrightarrow> 0 < b \<Longrightarrow> (a::int) smod b = a mod b"
  by (cases "a = 0") (simp_all add: signed_modulo_int_def)

lemma MAX_SAMPLES_pos: "0 < MAX_SAMPLES"
  by (simp add: MAX_SAMPLES_def)

lemma wf_buf_init: "wf_buf (buffer_init buffer_static)"
  by (simp add: wf_buf_def buffer_init_def buffer_static_def MAX_SAMPLES_def)

lemma wf_buf_push: "wf_buf b \<Longrightarrow> wf_buf (buffer_push b v)"
  by (auto simp: wf_buf_def buffer_push_def smod_nonneg MAX_SAMPLES_def)

lemma pushes_snoc: "pushes (vs @ [v]) = buffer_push (pushes vs) v"
  by (simp add: pushes_def)

lemma wf_buf_pushes: "wf_buf (pushes vs)"
proof (induction vs rule: rev_induct)
  case Nil
  show ?case by (simp add: pushes_def wf_buf_init)
next
  case (snoc v vs)
  then show ?case by (simp add: pushes_snoc wf_buf_push)
qed

lemma slot_partial:
  "wf_buf b \<Longrightarrow> count b < MAX_SAMPLES \<Longrightarrow> 0 \<le> i \<Longrightarrow> i < MAX_SAMPLES \<Longrightarrow> slot b i = i"
  by (simp add: wf_buf_def slot_def smod_nonneg MAX_SAMPLES_def)

lemma slot_full:
  "wf_buf b \<Longrightarrow> count b = MAX_SAMPLES \<Longrightarrow> 0 \<le> i \<Longrightarrow> slot b i = (head b + i) mod MAX_SAMPLES"
  by (simp add: wf_buf_def slot_def smod_nonneg MAX_SAMPLES_def)

text \<open>Every index the loop reads is inside the array.\<close>

lemma slot_range: "wf_buf b \<Longrightarrow> 0 \<le> i \<Longrightarrow> 0 \<le> slot b i \<and> slot b i < MAX_SAMPLES"
  by (simp add: wf_buf_def slot_def smod_nonneg MAX_SAMPLES_def)

lemma length_retained: "length (retained b) = nat (count b)"
  by (simp add: retained_def)

lemma nth_retained:
  "i < nat (count b) \<Longrightarrow> retained b ! i = samples b ! nat (slot b (int i))"
  by (simp add: retained_def)

lemma push_fields:
  "samples (buffer_push b v) = (samples b)[nat (head b) := v]"
  "head (buffer_push b v) = (head b + 1) smod MAX_SAMPLES"
  "count (buffer_push b v) = (if count b < MAX_SAMPLES then count b + 1 else count b)"
  by (simp_all add: buffer_push_def)

lemma retained_push_partial:
  assumes "wf_buf b" "count b < MAX_SAMPLES"
  shows "retained (buffer_push b v) = retained b @ [v]"
proof (rule nth_equalityI)
  show "length (retained (buffer_push b v)) = length (retained b @ [v])"
    using assms by (simp add: length_retained buffer_push_def wf_buf_def nat_add_distrib)
next
  fix i assume "i < length (retained (buffer_push b v))"
  then have i: "int i < count b + 1"
    using assms by (simp add: length_retained buffer_push_def)
  have wf': "wf_buf (buffer_push b v)" using assms(1) by (rule wf_buf_push)
  have hc: "head b = count b" using assms by (simp add: wf_buf_def)
  have c0: "0 \<le> count b" using assms by (simp add: wf_buf_def)
  have len: "length (samples b) = nat MAX_SAMPLES" using assms by (simp add: wf_buf_def)
  have s': "slot (buffer_push b v) (int i) = int i"
  proof (cases "count b + 1 = MAX_SAMPLES")
    case True
    with assms i hc c0 show ?thesis
      by (simp add: slot_def push_fields smod_nonneg MAX_SAMPLES_def)
  next
    case False
    with assms i hc c0 show ?thesis
      by (simp add: slot_def push_fields smod_nonneg MAX_SAMPLES_def)
  qed
  have "i < nat (count (buffer_push b v))"
    using i c0 assms(2) by (simp add: push_fields)
  then have "retained (buffer_push b v) ! i = (samples b)[nat (head b) := v] ! i"
    by (simp add: nth_retained s' push_fields(1))
  also have "\<dots> = (retained b @ [v]) ! i"
  proof (cases "int i < count b")
    case True
    then have "slot b (int i) = int i"
      using assms by (intro slot_partial) auto
    moreover from True have "i < nat (count b)" by simp
    ultimately show ?thesis
      using hc by (simp add: nth_append length_retained nth_retained)
  next
    case False
    with i have "int i = count b" by simp
    then have "i = nat (count b)" by simp
    with hc len assms(2) c0 show ?thesis
      by (simp add: nth_append length_retained)
  qed
  finally show "retained (buffer_push b v) ! i = (retained b @ [v]) ! i" .
qed


lemma retained_push_full:
  assumes "wf_buf b" "count b = MAX_SAMPLES"
  shows "retained (buffer_push b v) = tl (retained b) @ [v]"
proof (rule nth_equalityI)
  show "length (retained (buffer_push b v)) = length (tl (retained b) @ [v])"
    using assms by (simp add: length_retained push_fields MAX_SAMPLES_def)
next
  fix i assume "i < length (retained (buffer_push b v))"
  then have i: "int i < MAX_SAMPLES"
    using assms by (simp add: length_retained push_fields)
  have h: "0 \<le> head b" "head b < MAX_SAMPLES" using assms by (simp_all add: wf_buf_def)
  have len: "length (samples b) = nat MAX_SAMPLES" using assms by (simp add: wf_buf_def)
  have wf': "wf_buf (buffer_push b v)" using assms(1) by (rule wf_buf_push)
  have c': "count (buffer_push b v) = MAX_SAMPLES" using assms by (simp add: push_fields)
  have "slot (buffer_push b v) (int i) = (head (buffer_push b v) + int i) mod MAX_SAMPLES"
    using wf' c' by (intro slot_full) auto
  also have "\<dots> = (head b + (int i + 1)) mod MAX_SAMPLES"
    using h by (simp add: push_fields smod_nonneg MAX_SAMPLES_pos mod_simps ac_simps)
  finally have s': "slot (buffer_push b v) (int i) = (head b + (int i + 1)) mod MAX_SAMPLES" .
  have i': "i < nat (count (buffer_push b v))" using i c' by simp
  show "retained (buffer_push b v) ! i = (tl (retained b) @ [v]) ! i"
  proof (cases "int i + 1 < MAX_SAMPLES")
    case True
    then have si: "Suc i < nat (count b)" using assms(2) by simp
    have ne: "(head b + (int i + 1)) mod MAX_SAMPLES \<noteq> head b"
    proof (cases "head b + (int i + 1) < MAX_SAMPLES")
      case True
      with h have "(head b + (int i + 1)) mod MAX_SAMPLES = head b + (int i + 1)"
        by (intro mod_pos_pos_trivial) auto
      then show ?thesis by simp
    next
      case False
      with h \<open>int i + 1 < MAX_SAMPLES\<close>
      have "(head b + (int i + 1) - MAX_SAMPLES) mod MAX_SAMPLES = head b + (int i + 1) - MAX_SAMPLES"
        by (intro mod_pos_pos_trivial) auto
      moreover have "(head b + (int i + 1) - MAX_SAMPLES) mod MAX_SAMPLES
                       = (head b + (int i + 1)) mod MAX_SAMPLES"
        by (rule minus_mod_self2)
      ultimately show ?thesis using \<open>int i + 1 < MAX_SAMPLES\<close> by simp
    qed
    have "retained (buffer_push b v) ! i
            = (samples b)[nat (head b) := v] ! nat ((head b + (int i + 1)) mod MAX_SAMPLES)"
      using i' by (simp add: nth_retained s' push_fields(1))
    also have "\<dots> = samples b ! nat ((head b + (int i + 1)) mod MAX_SAMPLES)"
      using ne h MAX_SAMPLES_pos by (simp add: nat_eq_iff)
    also have "\<dots> = samples b ! nat (slot b (int (Suc i)))"
      using assms by (simp add: slot_full ac_simps)
    also have "\<dots> = retained b ! Suc i"
      using si by (simp add: nth_retained)
    also have "\<dots> = (tl (retained b) @ [v]) ! i"
    proof -
      from si have "i < length (tl (retained b))" by (simp add: length_retained)
      then show ?thesis by (simp add: nth_append nth_tl)
    qed
    finally show ?thesis .
  next
    case False
    with i have ie: "int i + 1 = MAX_SAMPLES" by simp
    then have il: "i = length (tl (retained b))"
      using assms(2) by (simp add: length_retained)
    have "(head b + (int i + 1)) mod MAX_SAMPLES = head b"
      using h by (simp add: ie mod_pos_pos_trivial)
    then have "retained (buffer_push b v) ! i = (samples b)[nat (head b) := v] ! nat (head b)"
      using i' by (simp add: nth_retained s' push_fields(1))
    also have "\<dots> = v"
      using h len by simp
    finally show ?thesis using il by (simp add: nth_append)
  qed
qed

lemma count_pushes: "count (pushes vs) = min (int (length vs)) MAX_SAMPLES"
proof (induction vs rule: rev_induct)
  case Nil
  show ?case by (simp add: pushes_def buffer_init_def buffer_static_def MAX_SAMPLES_def)
next
  case (snoc v vs)
  then show ?case by (auto simp: pushes_snoc push_fields)
qed

lemma retained_pushes: "retained (pushes vs) = drop (length vs - nat MAX_SAMPLES) vs"
proof (induction vs rule: rev_induct)
  case Nil
  show ?case by (simp add: pushes_def retained_def buffer_init_def buffer_static_def)
next
  case (snoc v vs)
  show ?case
  proof (cases "int (length vs) < MAX_SAMPLES")
    case True
    then have "count (pushes vs) < MAX_SAMPLES" by (simp add: count_pushes)
    then have "retained (pushes (vs @ [v])) = retained (pushes vs) @ [v]"
      by (simp add: pushes_snoc retained_push_partial wf_buf_pushes)
    with snoc True show ?thesis by simp
  next
    case False
    then have "count (pushes vs) = MAX_SAMPLES" by (simp add: count_pushes)
    then have "retained (pushes (vs @ [v])) = tl (retained (pushes vs)) @ [v]"
      by (simp add: pushes_snoc retained_push_full wf_buf_pushes)
    also have "\<dots> = drop (Suc (length vs - nat MAX_SAMPLES)) vs @ [v]"
      by (simp add: snoc.IH drop_Suc tl_drop)
    also have "\<dots> = drop (length (vs @ [v]) - nat MAX_SAMPLES) (vs @ [v])"
    proof -
      from False have "nat MAX_SAMPLES \<le> length vs" by simp
      moreover have "0 < nat MAX_SAMPLES" by (simp add: MAX_SAMPLES_def)
      ultimately show ?thesis by (simp add: Suc_diff_le)
    qed
    finally show ?thesis .
  qed
qed

lemma head_pushes: "head (pushes vs) = int (length vs) mod MAX_SAMPLES"
proof (induction vs rule: rev_induct)
  case Nil
  show ?case by (simp add: pushes_def buffer_init_def)
next
  case (snoc v vs)
  have "0 \<le> head (pushes vs)" using wf_buf_pushes [of vs] by (simp add: wf_buf_def)
  then show ?case
    using snoc by (simp add: pushes_snoc push_fields smod_nonneg MAX_SAMPLES_pos mod_simps ac_simps)
qed

lemma oldest_index_eq:
  assumes "wf_buf b"
  shows "oldest_index b = (head b - count b) mod MAX_SAMPLES"
proof -
  have "0 \<le> head b + MAX_SAMPLES - count b" using assms by (simp add: wf_buf_def)
  then have "oldest_index b = (head b + MAX_SAMPLES - count b) mod MAX_SAMPLES"
    by (simp add: oldest_index_def slot_def smod_nonneg MAX_SAMPLES_pos)
  also have "head b + MAX_SAMPLES - count b = (head b - count b) + MAX_SAMPLES" by simp
  also have "((head b - count b) + MAX_SAMPLES) mod MAX_SAMPLES = (head b - count b) mod MAX_SAMPLES"
    by simp
  finally show ?thesis .
qed

lemma oldest_sample:
  assumes "vs \<noteq> []"
  shows "samples (pushes vs) ! nat (oldest_index (pushes vs)) = vs ! (length vs - nat (count (pushes vs)))"
proof -
  have c: "0 < nat (count (pushes vs))"
    using assms by (simp add: count_pushes MAX_SAMPLES_def)
  then have "retained (pushes vs) ! 0 = samples (pushes vs) ! nat (oldest_index (pushes vs))"
    by (simp add: nth_retained oldest_index_def)
  moreover have "retained (pushes vs) ! 0 = vs ! (length vs - nat MAX_SAMPLES)"
    using assms by (simp add: retained_pushes)
  moreover have "length vs - nat MAX_SAMPLES = length vs - nat (count (pushes vs))"
    by (simp add: count_pushes min_def)
  ultimately show ?thesis by simp
qed

lemma scan_step_pair:
  "scan_step v (acc, mm, Mx) =
     (dadd acc v, if dless v mm then v else mm, if dless Mx v then v else Mx)"
  by (simp add: scan_step_def)

lemma stats_loop_fold:
  "0 \<le> i \<Longrightarrow> i \<le> count b \<Longrightarrow>
   stats_loop b i st = fold scan_step (drop (nat i) (retained b)) st"
proof (induction b i st rule: stats_loop.induct)
  case (1 b i acc mm Mx)
  show ?case
  proof (cases "i < count b")
    case True
    then have ni: "nat i < length (retained b)"
      using "1.prems" by (simp add: length_retained)
    have "drop (nat i) (retained b) = retained b ! nat i # drop (Suc (nat i)) (retained b)"
      using ni by (simp add: Cons_nth_drop_Suc)
    moreover have "retained b ! nat i = samples b ! nat (slot b i)"
      using ni "1.prems" by (simp add: nth_retained length_retained)
    moreover have "nat (i + 1) = Suc (nat i)"
      using "1.prems" by simp
    moreover have "stats_loop b (i + 1)
            (dadd acc (samples b ! nat (slot b i)),
             if dless (samples b ! nat (slot b i)) mm then samples b ! nat (slot b i) else mm,
             if dless Mx (samples b ! nat (slot b i)) then samples b ! nat (slot b i) else Mx)
          = fold scan_step (drop (nat (i + 1)) (retained b))
            (dadd acc (samples b ! nat (slot b i)),
             if dless (samples b ! nat (slot b i)) mm then samples b ! nat (slot b i) else mm,
             if dless Mx (samples b ! nat (slot b i)) then samples b ! nat (slot b i) else Mx)"
      using True "1.prems" by (intro "1.IH") auto
    ultimately show ?thesis
      using True by (simp add: stats_loop.simps [of b i] scan_step_pair Let_def)
  next
    case False
    with "1.prems" have "nat i = length (retained b)" by (simp add: length_retained)
    with False show ?thesis by (simp add: stats_loop.simps [of b i])
  qed
qed

lemma fold_scan_step:
  "fold scan_step ws (a, m, M) =
     (foldl dadd a ws,
      foldl (\<lambda>m v. if dless v m then v else m) m ws,
      foldl (\<lambda>M v. if dless M v then v else M) M ws)"
  by (induction ws arbitrary: a m M) (simp_all add: scan_step_pair)

lemma compute_stats_retained:
  assumes "0 < count b"
  shows "buffer_compute_stats b =
           (ddiv (foldl dadd 0 (retained b)) (d_of_int (count b)),
            foldl (\<lambda>m v. if dless v m then v else m) (samples b ! 0) (retained b),
            foldl (\<lambda>M v. if dless M v then v else M) (samples b ! 0) (retained b),
            count b)"
  using assms by (simp add: buffer_compute_stats_def stats_loop_fold fold_scan_step)

lemma sample0_retained:
  assumes "wf_buf b" "0 < count b"
  shows "samples b ! 0 \<in> set (retained b)"
proof (cases "count b < MAX_SAMPLES")
  case True
  with assms have "slot b 0 = 0" by (intro slot_partial) (auto simp: MAX_SAMPLES_def)
  then have "retained b ! 0 = samples b ! 0"
    using assms(2) by (simp add: nth_retained)
  moreover have "0 < length (retained b)" using assms(2) by (simp add: length_retained)
  ultimately show ?thesis by (metis nth_mem)
next
  case False
  with assms have full: "count b = MAX_SAMPLES" by (simp add: wf_buf_def)
  have h: "0 \<le> head b" "head b < MAX_SAMPLES" using assms by (simp_all add: wf_buf_def)
  define i where "i = (MAX_SAMPLES - head b) mod MAX_SAMPLES"
  have i: "0 \<le> i" "i < MAX_SAMPLES" by (simp_all add: i_def MAX_SAMPLES_pos)
  have "slot b i = (head b + i) mod MAX_SAMPLES"
    using assms(1) full i(1) by (rule slot_full)
  also have "\<dots> = (head b + (MAX_SAMPLES - head b)) mod MAX_SAMPLES"
    unfolding i_def by (simp add: mod_simps)
  also have "\<dots> = 0" by simp
  finally have "slot b (int (nat i)) = 0" using i by simp
  moreover have ni: "nat i < nat (count b)" using i full by simp
  ultimately have "retained b ! nat i = samples b ! 0"
    by (simp add: nth_retained)
  moreover have "nat i < length (retained b)" using ni by (simp add: length_retained)
  ultimately show ?thesis by (metis nth_mem)
qed

lemma sample0_pushes:
  assumes "vs \<noteq> []" "int (length vs) \<le> MAX_SAMPLES"
  shows "samples (pushes vs) ! 0 = hd vs"
proof -
  have c: "count (pushes vs) = int (length vs)" using assms by (simp add: count_pushes)
  have wf: "wf_buf (pushes vs)" by (rule wf_buf_pushes)
  have "oldest_index (pushes vs) = 0"
  proof (cases "count (pushes vs) < MAX_SAMPLES")
    case True
    with wf show ?thesis unfolding oldest_index_def
      by (intro slot_partial) (auto simp: MAX_SAMPLES_def)
  next
    case False
    with c assms have "count (pushes vs) = MAX_SAMPLES" by simp
    moreover have "head (pushes vs) = 0"
      using c calculation by (simp add: head_pushes)
    ultimately show ?thesis by (simp add: oldest_index_eq wf)
  qed
  then show ?thesis
    using oldest_sample [OF assms(1)] c assms(1) by (simp add: hd_conv_nth)
qed

lemma foldl_min_mem:
  "foldl (\<lambda>m v. if dless v m then v else m) m ws \<in> insert m (set ws)"
  by (induction ws arbitrary: m) auto

lemma foldl_max_mem:
  "foldl (\<lambda>M v. if dless M v then v else M) M ws \<in> insert M (set ws)"
  by (induction ws arbitrary: M) auto

lemma foldl_min_le:
  "\<not> is_nan m \<Longrightarrow> \<forall>v\<in>set ws. \<not> is_nan v \<Longrightarrow>
   dle (foldl (\<lambda>m v. if dless v m then v else m) m ws) m \<and>
   (\<forall>v\<in>set ws. dle (foldl (\<lambda>m v. if dless v m then v else m) m ws) v)"
proof (induction ws arbitrary: m)
  case Nil
  then show ?case by (simp add: dle_def)
next
  case (Cons w ws)
  let ?m' = "if dless w m then w else m"
  have m': "\<not> is_nan ?m'" using Cons.prems by simp
  have IH: "dle (foldl (\<lambda>m v. if dless v m then v else m) ?m' ws) ?m' \<and>
            (\<forall>v\<in>set ws. dle (foldl (\<lambda>m v. if dless v m then v else m) ?m' ws) v)"
    using Cons.prems by (intro Cons.IH m') simp
  have "dle ?m' m" "dle ?m' w"
    using Cons.prems by (auto simp: dle_def dless_def)
  with IH show ?case by (auto simp: dle_def)
qed

lemma foldl_max_ge:
  "\<not> is_nan M \<Longrightarrow> \<forall>v\<in>set ws. \<not> is_nan v \<Longrightarrow>
   dle M (foldl (\<lambda>M v. if dless M v then v else M) M ws) \<and>
   (\<forall>v\<in>set ws. dle v (foldl (\<lambda>M v. if dless M v then v else M) M ws))"
proof (induction ws arbitrary: M)
  case Nil
  then show ?case by (simp add: dle_def)
next
  case (Cons w ws)
  let ?M' = "if dless M w then w else M"
  have M': "\<not> is_nan ?M'" using Cons.prems by simp
  have IH: "dle ?M' (foldl (\<lambda>M v. if dless M v then v else M) ?M' ws) \<and>
            (\<forall>v\<in>set ws. dle v (foldl (\<lambda>M v. if dless M v then v else M) ?M' ws))"
    using Cons.prems by (intro Cons.IH M') simp
  have "dle M ?M'" "dle w ?M'"
    using Cons.prems by (auto simp: dle_def dless_def)
  with IH show ?case by (auto simp: dle_def)
qed

lemma stat_simps:
  "stat_avg (a, mn, mx, c) = a" "stat_min (a, mn, mx, c) = mn"
  "stat_max (a, mn, mx, c) = mx" "stat_count (a, mn, mx, c) = c"
  by (simp_all add: stat_avg_def stat_min_def stat_max_def stat_count_def)

lemma compute_stats_empty: "count b = 0 \<Longrightarrow> buffer_compute_stats b = (0, 0, 0, 0)"
  by (simp add: buffer_compute_stats_def)

text \<open>What \<^verbatim>\<open>buffer_compute_stats\<close> returns in a well-formed, non-empty buffer, in
  terms of the retained entries.\<close>

lemma compute_stats_wf:
  assumes "wf_buf b" "0 < count b"
  shows "stat_count (buffer_compute_stats b) = count b"
    and "stat_avg (buffer_compute_stats b) = ddiv (foldl dadd 0 (retained b)) (d_of_int (count b))"
    and "stat_min (buffer_compute_stats b) \<in> set (retained b)"
    and "stat_max (buffer_compute_stats b) \<in> set (retained b)"
    and "\<forall>v\<in>set (retained b). \<not> is_nan v \<Longrightarrow>
         \<forall>v\<in>set (retained b). dle (stat_min (buffer_compute_stats b)) v \<and>
                                 dle v (stat_max (buffer_compute_stats b))"
proof -
  note r = compute_stats_retained [OF assms(2)]
  have s0: "samples b ! 0 \<in> set (retained b)" using assms by (rule sample0_retained)
  show "stat_count (buffer_compute_stats b) = count b" by (simp add: r stat_simps)
  show "stat_avg (buffer_compute_stats b) = ddiv (foldl dadd 0 (retained b)) (d_of_int (count b))"
    by (simp add: r stat_simps)
  show "stat_min (buffer_compute_stats b) \<in> set (retained b)"
    using foldl_min_mem [of "samples b ! 0" "retained b"] s0 by (auto simp: r stat_simps)
  show "stat_max (buffer_compute_stats b) \<in> set (retained b)"
    using foldl_max_mem [of "samples b ! 0" "retained b"] s0 by (auto simp: r stat_simps)
  assume nn: "\<forall>v\<in>set (retained b). \<not> is_nan v"
  with s0 have n0: "\<not> is_nan (samples b ! 0)" by blast
  show "\<forall>v\<in>set (retained b). dle (stat_min (buffer_compute_stats b)) v \<and>
                                 dle v (stat_max (buffer_compute_stats b))"
    using foldl_min_le [OF n0 nn] foldl_max_ge [OF n0 nn] by (simp add: r stat_simps)
qed

lemma three_tenths_stats:
  "buffer_compute_stats (pushes [0x3FB999999999999A, 0x3FB999999999999A, 0x3FB999999999999A])
     = (0x3FB999999999999B, 0x3FB999999999999A, 0x3FB999999999999A, 3)"
proof -
  let ?vs = "[0x3FB999999999999A, 0x3FB999999999999A, 0x3FB999999999999A] :: double list"
  have c: "count (pushes ?vs) = 3" by (simp add: count_pushes MAX_SAMPLES_def)
  have r: "retained (pushes ?vs) = ?vs" by (simp add: retained_pushes MAX_SAMPLES_def)
  have s: "samples (pushes ?vs) ! 0 = 0x3FB999999999999A"
    using sample0_pushes [of ?vs] by (simp add: MAX_SAMPLES_def)
  have nl: "\<not> dless 0x3FB999999999999A 0x3FB999999999999A" by (simp add: dless_def)
  have "0 < count (pushes ?vs)" by (simp add: c)
  from compute_stats_retained [OF this] show ?thesis
    by (simp add: c r s nl tenth_sum_1 tenth_sum_2 tenth_sum_3 three_as_double tenth_quotient)
qed

text \<open>The doubles 1.0, 2.0, 20.0, 25.0 and 30.0.\<close>

lemma sample_values_not_nan:
  "\<not> is_nan 0x3FF0000000000000" "\<not> is_nan 0x4000000000000000"
  "\<not> is_nan 0x4034000000000000" "\<not> is_nan 0x4039000000000000"
  "\<not> is_nan 0x403E000000000000"
  by (simp_all add: is_nan_def d_exp_def d_frac_def)

lemma sample_values_order:
  "\<not> dle 0x4039000000000000 0x4034000000000000"
  "\<not> dle 0x403E000000000000 0x4034000000000000"
  "\<not> dle 0x403E000000000000 0x4039000000000000"
  by (simp_all add: dle_def d_val_def d_mag_def d_sign_def d_exp_def d_frac_def)

section \<open>Lemmas: the rounds of the two threads\<close>

lemma emit_fields:
  "buffer (emit e st) = buffer st" "shm_stats (emit e st) = shm_stats st"
  "trace (emit e st) = trace st @ [e]" "timer_vars (emit e st) = timer_vars st"
  by (simp_all add: emit_def)

lemma listener_failed:
  "listener_iter st (- 1) rmsg now = emit (Perror ''MsgReceive'') st"
  by (simp add: listener_iter_def)

lemma listener_accepted:
  assumes "rcvid \<noteq> - 1"
  shows "buffer (listener_iter st rcvid rmsg now) = buffer_push (buffer st) (temp rmsg)"
    and "shm_stats (listener_iter st rcvid rmsg now) = (shm_stats st)\<lparr>last_updated := now\<rparr>"
    and "trace (listener_iter st rcvid rmsg now) =
           trace st @ [Printf (received_line rmsg), BufferPush (temp rmsg), ShmTouch now,
                       MsgReply rcvid (fst (snprintf REPLY_SIZE (ack_text rmsg)))
                                 (snd (snprintf REPLY_SIZE (ack_text rmsg)) + 1)]"
    and "timer_vars (listener_iter st rcvid rmsg now) = timer_vars st"
  using assms by (simp_all add: listener_iter_def Let_def emit_fields split: prod.split)

lemma listener_timer_vars: "timer_vars (listener_iter st rcvid rmsg now) = timer_vars st"
  by (cases "rcvid = - 1") (simp_all add: listener_failed listener_accepted emit_fields)

text \<open>A round with an accepted reading is its four parts in a row.\<close>

lemma listener_iter_parts:
  "rcvid \<noteq> - 1 \<Longrightarrow>
   listener_iter st rcvid rmsg now =
     listener_reply rcvid rmsg (listener_touch now (listener_push rmsg (listener_log rmsg st)))"
  by (simp add: listener_iter_def listener_reply_def listener_touch_def listener_push_def
      listener_log_def Let_def)

lemma listener_parts_fields:
  "buffer (listener_log rmsg st) = buffer st"
  "trace (listener_log rmsg st) = trace st @ [Printf (received_line rmsg)]"
  "buffer (listener_push rmsg st) = buffer_push (buffer st) (temp rmsg)"
  "trace (listener_push rmsg st) = trace st @ [BufferPush (temp rmsg)]"
  "buffer (listener_touch now st) = buffer st"
  "trace (listener_touch now st) = trace st @ [ShmTouch now]"
  "buffer (listener_reply rcvid rmsg st) = buffer st"
  "trace (listener_reply rcvid rmsg st) =
     trace st @ [MsgReply rcvid (fst (snprintf REPLY_SIZE (ack_text rmsg)))
                          (snd (snprintf REPLY_SIZE (ack_text rmsg)) + 1)]"
  by (simp_all add: listener_log_def listener_push_def listener_touch_def listener_reply_def
      emit_fields split: prod.split)

lemma timer_compute_fields:
  "buffer (timer_compute st) = buffer st" "shm_stats (timer_compute st) = shm_stats st"
  "trace (timer_compute st) = trace st"
  "timer_vars (timer_compute st) = buffer_compute_stats (buffer st)"
  by (simp_all add: timer_compute_def)

lemma timer_publish_fields:
  "buffer (timer_publish st now) = buffer st"
  "shm_stats (timer_publish st now) =
     (shm_stats st)\<lparr>avg := stat_avg (timer_vars st), minimum := stat_min (timer_vars st),
                     maximum := stat_max (timer_vars st), shm_count := stat_count (timer_vars st),
                     last_updated := now\<rparr>"
  "trace (timer_publish st now) =
     trace st @ [ShmPublish (timer_vars st) now, Printf (periodic_line (timer_vars st))]"
  "timer_vars (timer_publish st now) = timer_vars st"
  by (simp_all add: timer_publish_def emit_fields stat_simps split: prod.split)

lemma stat_count_compute: "stat_count (buffer_compute_stats b) = count b"
  by (simp add: buffer_compute_stats_def stat_simps split: prod.split)

lemma run_Nil: "run st [] = st"
  by (simp add: run_def)

lemma run_Cons: "run st (a # acts) = run (step st a) acts"
  by (simp add: run_def)

lemma run_snoc: "run st (acts @ [a]) = step (run st acts) a"
  by (simp add: run_def)

text \<open>Failed receives change nothing but the trace.\<close>

lemma run_failed:
  "\<forall>a\<in>set acts. failed a \<Longrightarrow>
   buffer (run st acts) = buffer st \<and> shm_stats (run st acts) = shm_stats st \<and>
   timer_vars (run st acts) = timer_vars st"
proof (induction acts arbitrary: st)
  case Nil
  show ?case by (simp add: run_Nil)
next
  case (Cons a acts)
  from Cons.prems have "failed a" by simp
  then obtain rmsg now where a: "a = Receive (- 1) rmsg now"
    by (cases a) auto
  have "buffer (step st a) = buffer st \<and> shm_stats (step st a) = shm_stats st \<and>
        timer_vars (step st a) = timer_vars st"
    by (simp add: a listener_failed emit_fields)
  moreover have "buffer (run (step st a) acts) = buffer (step st a) \<and>
                 shm_stats (run (step st a) acts) = shm_stats (step st a) \<and>
                 timer_vars (run (step st a) acts) = timer_vars (step st a)"
    using Cons.prems by (intro Cons.IH) simp
  ultimately show ?case by (simp add: run_Cons)
qed

text \<open>The message loop never writes the local variables of the timer thread.\<close>

lemma run_receives:
  "\<forall>a\<in>set acts. is_receive a \<Longrightarrow> timer_vars (run st acts) = timer_vars st"
proof (induction acts arbitrary: st)
  case Nil
  show ?case by (simp add: run_Nil)
next
  case (Cons a acts)
  from Cons.prems have "is_receive a" by simp
  then obtain rcvid rmsg now where a: "a = Receive rcvid rmsg now"
    by (cases a) auto
  have "timer_vars (step st a) = timer_vars st"
    by (simp add: a listener_timer_vars)
  moreover have "timer_vars (run (step st a) acts) = timer_vars (step st a)"
    using Cons.prems by (intro Cons.IH) simp
  ultimately show ?case by (simp add: run_Cons)
qed

lemma failed_is_receive: "failed a \<Longrightarrow> is_receive a"
  by (cases a) auto

text \<open>The timer thread never writes the buffer and never replies.\<close>

lemma run_timers:
  "\<forall>a\<in>set ts. is_timer a \<Longrightarrow>
   buffer (run st ts) = buffer st \<and>
   filter is_reply (trace (run st ts)) = filter is_reply (trace st)"
proof (induction ts arbitrary: st)
  case Nil
  show ?case by (simp add: run_Nil)
next
  case (Cons a ts)
  from Cons.prems have "is_timer a" by simp
  then have "buffer (step st a) = buffer st \<and>
             filter is_reply (trace (step st a)) = filter is_reply (trace st)"
    by (cases a) (simp_all add: timer_compute_fields timer_publish_fields)
  moreover have "buffer (run (step st a) ts) = buffer (step st a) \<and>
                 filter is_reply (trace (run (step st a) ts)) = filter is_reply (trace (step st a))"
    using Cons.prems by (intro Cons.IH) simp
  ultimately show ?case by (simp add: run_Cons)
qed

text \<open>The buffer is well formed in every state of every run.\<close>

lemma wf_buf_step: "wf_buf (buffer st) \<Longrightarrow> wf_buf (buffer (step st a))"
proof (cases a)
  case (Receive rcvid rmsg now)
  assume "wf_buf (buffer st)"
  with Receive show ?thesis
    by (cases "rcvid = - 1")
      (simp_all add: listener_failed listener_accepted emit_fields wf_buf_push)
next
  case TimerCompute
  assume "wf_buf (buffer st)"
  with TimerCompute show ?thesis by (simp add: timer_compute_fields)
next
  case (TimerPublish now)
  assume "wf_buf (buffer st)"
  with TimerPublish show ?thesis by (simp add: timer_publish_fields)
qed

lemma wf_buf_run: "wf_buf (buffer st) \<Longrightarrow> wf_buf (buffer (run st acts))"
  by (induction acts arbitrary: st) (simp_all add: run_Nil run_Cons wf_buf_step)

lemma wf_buf_server_init: "wf_buf (buffer (server_init t0))"
  by (simp add: server_init_def wf_buf_init)

text \<open>What a publish cycle writes when only rounds of the message loop fall between its
  two parts: the aggregate of the buffer as it was when the cycle began.\<close>

lemma publish_cycle_writes:
  assumes "\<forall>a\<in>set acts. is_receive a"
  shows "avg (shm_stats (publish_cycle st acts now)) = stat_avg (buffer_compute_stats (buffer st))"
    and "minimum (shm_stats (publish_cycle st acts now)) = stat_min (buffer_compute_stats (buffer st))"
    and "maximum (shm_stats (publish_cycle st acts now)) = stat_max (buffer_compute_stats (buffer st))"
    and "shm_count (shm_stats (publish_cycle st acts now)) = stat_count (buffer_compute_stats (buffer st))"
    and "last_updated (shm_stats (publish_cycle st acts now)) = now"
proof -
  have "timer_vars (run (timer_compute st) acts) = buffer_compute_stats (buffer st)"
    using run_receives [OF assms, of "timer_compute st"] by (simp add: timer_compute_fields)
  then show
    "avg (shm_stats (publish_cycle st acts now)) = stat_avg (buffer_compute_stats (buffer st))"
    "minimum (shm_stats (publish_cycle st acts now)) = stat_min (buffer_compute_stats (buffer st))"
    "maximum (shm_stats (publish_cycle st acts now)) = stat_max (buffer_compute_stats (buffer st))"
    "shm_count (shm_stats (publish_cycle st acts now)) = stat_count (buffer_compute_stats (buffer st))"
    "last_updated (shm_stats (publish_cycle st acts now)) = now"
    by (simp_all add: publish_cycle_def timer_publish_fields)
qed

lemma publish_cycle_buffer:
  assumes "\<forall>a\<in>set acts. failed a"
  shows "buffer (publish_cycle st acts now) = buffer st"
  using run_failed [OF assms, of "timer_compute st"]
  by (simp add: publish_cycle_def timer_publish_fields timer_compute_fields)

lemma pending_append:
  "pending n (xs @ ys) = (case pending n xs of None \<Rightarrow> None | Some m \<Rightarrow> pending m ys)"
  by (induction xs arbitrary: n) simp_all

lemma pending_step:
  assumes "pending 0 (trace st) = Some 0"
  shows "pending 0 (trace (step st a)) = Some 0"
proof (cases a)
  case (Receive rcvid rmsg now)
  show ?thesis
  proof (cases "rcvid = - 1")
    case True
    with Receive assms show ?thesis
      by (simp add: listener_failed emit_fields pending_append)
  next
    case False
    with Receive assms show ?thesis
      by (simp add: listener_accepted pending_append)
  qed
next
  case TimerCompute
  with assms show ?thesis
    by (simp add: timer_compute_fields)
next
  case (TimerPublish now)
  with assms show ?thesis
    by (simp add: timer_publish_fields pending_append)
qed

lemma pending_run:
  "pending 0 (trace st) = Some 0 \<Longrightarrow> pending 0 (trace (run st acts)) = Some 0"
  by (induction acts arbitrary: st) (simp_all add: run_Nil run_Cons pending_step)

text \<open>The reading of producer 7 with temperature 22.5, and the buffer after it has
  been accepted in the initial state.\<close>

lemma buffer_after_one_reading:
  "buffer (run (server_init t0) [Receive 5 \<lparr>mtype = 1, pid = 7, temp = 0x4036800000000000\<rparr> now])
     = pushes [0x4036800000000000]"
  by (simp add: run_Cons run_Nil listener_accepted server_init_def pushes_def)

section \<open>Lemmas: formatted output\<close>

lemma snprintf_fields:
  "fst (snprintf n t) = take (n - 1) t @ [NUL]" "snd (snprintf n t) = int (length t)"
  by (simp_all add: snprintf_def)

lemma dec_digits_length:
  "10 ^ k \<le> n \<Longrightarrow> n < 10 ^ Suc k \<Longrightarrow> length (dec_digits n) = Suc k"
proof (induction k arbitrary: n)
  case 0
  then show ?case by (simp add: dec_digits.simps [of n])
next
  case (Suc k)
  have "(10::int) \<le> 10 ^ Suc k" by simp
  with Suc.prems have n10: "\<not> n < 10" by linarith
  have "10 ^ k \<le> n div 10" using Suc.prems(1) by simp
  moreover have "n div 10 < 10 ^ Suc k" using Suc.prems(2) by simp
  ultimately have "length (dec_digits (n div 10)) = Suc k" by (rule Suc.IH)
  with n10 show ?case by (simp add: dec_digits.simps [of n])
qed

text \<open>The double 22.5 and the text \<^verbatim>\<open>%.3f\<close> gives for it.\<close>

lemma fmt_f3_22_5: "fmt_f3 0x4036800000000000 = ''22.500''"
  by (simp add: fmt_f3_def d_sign_def is_nan_def is_inf_def d_exp_def d_frac_def d_mag_def
      round_half_even_def round_pick_def dec_digits.simps digit_def)

lemma fmt_d_7: "fmt_d 7 = ''7''"
  by (simp add: fmt_d_def dec_digits.simps digit_def)


text \<open>The double nearest to \<open>10\<^sup>1\<^sup>0\<^sup>0\<close>: \<^verbatim>\<open>%.3f\<close> writes 101 digits, the point and three
  more digits for it.\<close>

lemma fmt_f3_1e100: "length (fmt_f3 0x54B249AD2594C37D) = 105"
  by (simp add: fmt_f3_def d_sign_def is_nan_def is_inf_def d_exp_def d_frac_def d_mag_def
      round_half_even_def round_pick_def dec_digits_length [of 100])

lemma ack_text_1e100:
  "length (ack_text \<lparr>mtype = 1, pid = 7, temp = 0x54B249AD2594C37D\<rparr>) = 130"
  by (simp add: ack_text_def fmt_f3_1e100 fmt_d_7)

lemma ack_text_22_5:
  "ack_text \<lparr>mtype = ty, pid = 7, temp = 0x4036800000000000\<rparr> = ''ACK: received 22.500 from pid 7''"
  by (simp add: ack_text_def fmt_f3_22_5 fmt_d_7)

lemma last_reply:
  assumes "rcvid \<noteq> - 1"
  shows "last (trace (listener_iter st rcvid rmsg now)) =
           MsgReply rcvid (take 127 (ack_text rmsg) @ [NUL]) (int (length (ack_text rmsg)) + 1)"
  using assms by (simp add: listener_accepted snprintf_fields REPLY_SIZE_def)

section \<open>C1: the aggregate of at most \<open>MAX_SAMPLES\<close> pushes\<close>

text \<open>
  C1, as amended. After \<open>N \<le> MAX_SAMPLES\<close> pushes into the initial empty window,
  \<^verbatim>\<open>buffer_compute_stats\<close> returns the zero aggregate when \<open>N = 0\<close>; otherwise the count
  is \<open>N\<close>, the average is the running double sum of the \<open>N\<close> values, added in push
  order from \<open>0.0\<close>, divided in double arithmetic by \<open>N\<close>, the minimum and the maximum
  are among the \<open>N\<close> values, and when none of the values is a NaN they are below and
  above every one of them.
\<close>

theorem aggregate_within_capacity:
  assumes "int (length vs) \<le> MAX_SAMPLES"
  shows "(vs = [] \<longrightarrow> buffer_compute_stats (pushes vs) = (0, 0, 0, 0)) \<and>
         (vs \<noteq> [] \<longrightarrow>
            stat_count (buffer_compute_stats (pushes vs)) = int (length vs) \<and>
            stat_avg (buffer_compute_stats (pushes vs))
              = ddiv (foldl dadd 0 vs) (d_of_int (int (length vs))) \<and>
            stat_min (buffer_compute_stats (pushes vs)) \<in> set vs \<and>
            stat_max (buffer_compute_stats (pushes vs)) \<in> set vs \<and>
            ((\<forall>v\<in>set vs. \<not> is_nan v) \<longrightarrow>
               (\<forall>v\<in>set vs. dle (stat_min (buffer_compute_stats (pushes vs))) v \<and>
                             dle v (stat_max (buffer_compute_stats (pushes vs))))))"
proof (cases "vs = []")
  case True
  then show ?thesis by (simp add: compute_stats_empty count_pushes MAX_SAMPLES_def)
next
  case False
  have c: "count (pushes vs) = int (length vs)" using assms by (simp add: count_pushes)
  have r: "retained (pushes vs) = vs"
    using assms by (simp add: retained_pushes)
  have pos: "0 < count (pushes vs)" using False c by simp
  note w = compute_stats_wf [OF wf_buf_pushes pos, unfolded r c]
  from False w show ?thesis by blast
qed

text \<open>C1, witness: no push at all, and the pushes of 20.0, 25.0 and 30.0, which give the
  average 25.0, the minimum 20.0, the maximum 30.0 and the count 3.\<close>

theorem aggregate_within_capacity_witness:
  "int (length ([] :: double list)) \<le> MAX_SAMPLES \<and>
   buffer_compute_stats (pushes []) = (0, 0, 0, 0) \<and>
   int (length [0x4034000000000000, 0x4039000000000000, 0x403E000000000000 :: double])
     \<le> MAX_SAMPLES \<and>
   \<not> is_nan 0x4034000000000000 \<and> \<not> is_nan 0x4039000000000000 \<and>
   \<not> is_nan 0x403E000000000000 \<and>
   stat_count (buffer_compute_stats
      (pushes [0x4034000000000000, 0x4039000000000000, 0x403E000000000000])) = 3 \<and>
   stat_avg (buffer_compute_stats
      (pushes [0x4034000000000000, 0x4039000000000000, 0x403E000000000000]))
     = 0x4039000000000000 \<and>
   stat_min (buffer_compute_stats
      (pushes [0x4034000000000000, 0x4039000000000000, 0x403E000000000000]))
     = 0x4034000000000000 \<and>
   stat_max (buffer_compute_stats
      (pushes [0x4034000000000000, 0x4039000000000000, 0x403E000000000000]))
     = 0x403E000000000000"
proof -
  let ?vs = "[0x4034000000000000, 0x4039000000000000, 0x403E000000000000] :: double list"
  let ?r = "buffer_compute_stats (pushes ?vs)"
  have l0: "int (length ([] :: double list)) \<le> MAX_SAMPLES" by (simp add: MAX_SAMPLES_def)
  have e: "buffer_compute_stats (pushes []) = (0, 0, 0, 0)"
    using aggregate_within_capacity [OF l0] by simp
  have l: "int (length ?vs) \<le> MAX_SAMPLES" by (simp add: MAX_SAMPLES_def)
  have nn: "\<forall>v\<in>set ?vs. \<not> is_nan v" by (simp add: sample_values_not_nan)
  have ne: "?vs \<noteq> []" by simp
  from aggregate_within_capacity [OF l] ne nn
  have c: "stat_count ?r = int (length ?vs)"
    and a: "stat_avg ?r = ddiv (foldl dadd 0 ?vs) (d_of_int (int (length ?vs)))"
    and mn: "stat_min ?r \<in> set ?vs" and mx: "stat_max ?r \<in> set ?vs"
    and b: "\<forall>v\<in>set ?vs. dle (stat_min ?r) v \<and> dle v (stat_max ?r)"
    by blast+
  from b have "dle (stat_min ?r) 0x4034000000000000" by simp
  with mn have 1: "stat_min ?r = 0x4034000000000000"
    by (auto simp: sample_values_order)
  from b have "dle 0x403E000000000000 (stat_max ?r)" by simp
  with mx have 2: "stat_max ?r = 0x403E000000000000"
    by (auto simp: sample_values_order)
  from c have 3: "stat_count ?r = 3" by simp
  from a have 4: "stat_avg ?r = 0x4039000000000000"
    by (simp add: spec_example_sum three_as_double spec_example_quotient)
  from l0 e l sample_values_not_nan 1 2 3 4 show ?thesis by blast
qed

text \<open>
  C1, as stated, fails for the average: after three pushes of the double nearest to
  0.1 the exact average of the three values is that double itself, and
  \<^verbatim>\<open>buffer_compute_stats\<close> returns the next double above it.
\<close>

theorem average_of_three_tenths_inexact:
  "stat_avg (buffer_compute_stats
      (pushes [0x3FB999999999999A, 0x3FB999999999999A, 0x3FB999999999999A])) = 0x3FB999999999999B \<and>
   is_exact_average [0x3FB999999999999A, 0x3FB999999999999A, 0x3FB999999999999A] 0x3FB999999999999A \<and>
   \<not> is_exact_average [0x3FB999999999999A, 0x3FB999999999999A, 0x3FB999999999999A]
       (stat_avg (buffer_compute_stats
          (pushes [0x3FB999999999999A, 0x3FB999999999999A, 0x3FB999999999999A])))"
  using tenth_properties(5)
  by (simp add: three_tenths_stats stat_simps is_exact_average_def tenth_properties(1-4))

section \<open>C2: the aggregate of more than \<open>MAX_SAMPLES\<close> pushes\<close>

text \<open>
  C2. After \<open>N > MAX_SAMPLES\<close> pushes the window holds exactly the last
  \<open>MAX_SAMPLES\<close> values pushed, in push order (the oldest values are the ones gone),
  the count returned is \<open>MAX_SAMPLES\<close>, and average, minimum and maximum are computed
  from those values alone: the average is their running double sum divided by
  \<open>MAX_SAMPLES\<close>, minimum and maximum are among them, below and above every one of
  them when none is a NaN.
\<close>

theorem aggregate_beyond_capacity:
  assumes "MAX_SAMPLES < int (length vs)"
  shows "retained (pushes vs) = drop (length vs - nat MAX_SAMPLES) vs \<and>
         length (retained (pushes vs)) = nat MAX_SAMPLES \<and>
         stat_count (buffer_compute_stats (pushes vs)) = MAX_SAMPLES \<and>
         stat_avg (buffer_compute_stats (pushes vs))
           = ddiv (foldl dadd 0 (drop (length vs - nat MAX_SAMPLES) vs)) (d_of_int MAX_SAMPLES) \<and>
         stat_min (buffer_compute_stats (pushes vs)) \<in> set (drop (length vs - nat MAX_SAMPLES) vs) \<and>
         stat_max (buffer_compute_stats (pushes vs)) \<in> set (drop (length vs - nat MAX_SAMPLES) vs) \<and>
         ((\<forall>v\<in>set (drop (length vs - nat MAX_SAMPLES) vs). \<not> is_nan v) \<longrightarrow>
            (\<forall>v\<in>set (drop (length vs - nat MAX_SAMPLES) vs).
               dle (stat_min (buffer_compute_stats (pushes vs))) v \<and>
               dle v (stat_max (buffer_compute_stats (pushes vs)))))"
proof -
  have c: "count (pushes vs) = MAX_SAMPLES" using assms by (simp add: count_pushes)
  have r: "retained (pushes vs) = drop (length vs - nat MAX_SAMPLES) vs"
    by (rule retained_pushes)
  have l: "length (retained (pushes vs)) = nat MAX_SAMPLES"
    by (simp add: length_retained c)
  have pos: "0 < count (pushes vs)" using c MAX_SAMPLES_pos by simp
  note w = compute_stats_wf [OF wf_buf_pushes pos, unfolded r c]
  from r l w show ?thesis by (simp only: r) blast
qed

text \<open>C2, witness: 1.0 pushed first and then 2.0 pushed 1024 times; the 1.0 is gone.\<close>

theorem aggregate_beyond_capacity_witness:
  "MAX_SAMPLES < int (length (0x3FF0000000000000 # replicate 1024 (0x4000000000000000 :: double))) \<and>
   retained (pushes (0x3FF0000000000000 # replicate 1024 0x4000000000000000))
     = replicate 1024 0x4000000000000000 \<and>
   stat_count (buffer_compute_stats
      (pushes (0x3FF0000000000000 # replicate 1024 0x4000000000000000))) = 1024 \<and>
   stat_min (buffer_compute_stats
      (pushes (0x3FF0000000000000 # replicate 1024 0x4000000000000000))) = 0x4000000000000000 \<and>
   stat_max (buffer_compute_stats
      (pushes (0x3FF0000000000000 # replicate 1024 0x4000000000000000))) = 0x4000000000000000"
proof -
  let ?vs = "0x3FF0000000000000 # replicate 1024 (0x4000000000000000 :: double)"
  let ?r = "buffer_compute_stats (pushes ?vs)"
  have l: "MAX_SAMPLES < int (length ?vs)" by (simp add: MAX_SAMPLES_def)
  have d: "drop (length ?vs - nat MAX_SAMPLES) ?vs = replicate 1024 0x4000000000000000"
    by (simp add: MAX_SAMPLES_def)
  from aggregate_beyond_capacity [OF l]
  have "retained (pushes ?vs) = replicate 1024 0x4000000000000000"
    and "stat_count ?r = MAX_SAMPLES"
    and "stat_min ?r \<in> set (replicate 1024 (0x4000000000000000 :: double))"
    and "stat_max ?r \<in> set (replicate 1024 (0x4000000000000000 :: double))"
    unfolding d by blast+
  with l show ?thesis by (simp add: MAX_SAMPLES_def)
qed

section \<open>C3: the text of the reply\<close>

text \<open>
  C3, as amended. For an accepted reading the bytes of the reply are the text
  \<^verbatim>\<open>ACK: received %.3f from pid %d\<close> of the reading's temperature and producer id,
  cut after 127 characters, and a NUL; when the text has fewer than 128 characters (as
  for every temperature below \<open>10\<^sup>8\<^sup>0\<close> in magnitude) the reply is the whole text and
  its NUL, sent with their exact length. For producer id 7 and temperature 22.5 the
  text is \<^verbatim>\<open>ACK: received 22.500 from pid 7\<close>.
\<close>

theorem reply_is_ack_text:
  "(rcvid \<noteq> - 1 \<longrightarrow>
      (\<exists>n. last (trace (listener_iter st rcvid rmsg now)) =
             MsgReply rcvid (take 127 (ack_text rmsg) @ [NUL]) n)) \<and>
   (rcvid \<noteq> - 1 \<and> length (ack_text rmsg) < 128 \<longrightarrow>
      last (trace (listener_iter st rcvid rmsg now)) =
        MsgReply rcvid (ack_text rmsg @ [NUL]) (int (length (ack_text rmsg @ [NUL])))) \<and>
   ack_text \<lparr>mtype = ty, pid = 7, temp = 0x4036800000000000\<rparr> = ''ACK: received 22.500 from pid 7''"
  by (simp add: last_reply ack_text_22_5)

text \<open>C3, witness: the reading of producer 7 with temperature 22.5, received with
  \<open>rcvid = 5\<close>.\<close>

theorem reply_is_ack_text_witness:
  "(5 :: int) \<noteq> - 1 \<and>
   length (ack_text \<lparr>mtype = 1, pid = 7, temp = 0x4036800000000000\<rparr>) < 128 \<and>
   last (trace (listener_iter (server_init 0) 5
           \<lparr>mtype = 1, pid = 7, temp = 0x4036800000000000\<rparr> 42)) =
     MsgReply 5 (''ACK: received 22.500 from pid 7'' @ [NUL]) 32"
proof -
  let ?m = "\<lparr>mtype = 1, pid = 7, temp = 0x4036800000000000\<rparr> :: temp_msg"
  have t: "ack_text ?m = ''ACK: received 22.500 from pid 7''" by (rule ack_text_22_5)
  have l: "length (ack_text ?m) < 128" by (simp add: t)
  have r: "(5 :: int) \<noteq> - 1" by simp
  from reply_is_ack_text [of 5 "server_init 0" ?m 42] r l
  have "last (trace (listener_iter (server_init 0) 5 ?m 42)) =
          MsgReply 5 (ack_text ?m @ [NUL]) (int (length (ack_text ?m @ [NUL])))"
    by blast
  then have "last (trace (listener_iter (server_init 0) 5 ?m 42)) =
          MsgReply 5 (''ACK: received 22.500 from pid 7'' @ [NUL]) 32"
    by (simp add: t)
  with r l show ?thesis by blast
qed

text \<open>
  C3, as stated, fails for a reading whose text does not fit: for producer id 7 and
  the temperature \<open>10\<^sup>1\<^sup>0\<^sup>0\<close> the text has 130 characters, and the 128 bytes of the
  reply are not that text and its NUL.
\<close>

theorem reply_not_ack_text_1e100:
  "length (ack_text \<lparr>mtype = 1, pid = 7, temp = 0x54B249AD2594C37D\<rparr>) = 130 \<and>
   length (fst (snprintf REPLY_SIZE (ack_text \<lparr>mtype = 1, pid = 7, temp = 0x54B249AD2594C37D\<rparr>)))
     = 128 \<and>
   fst (snprintf REPLY_SIZE (ack_text \<lparr>mtype = 1, pid = 7, temp = 0x54B249AD2594C37D\<rparr>))
     \<noteq> ack_text \<lparr>mtype = 1, pid = 7, temp = 0x54B249AD2594C37D\<rparr> @ [NUL]"
proof -
  let ?m = "\<lparr>mtype = 1, pid = 7, temp = 0x54B249AD2594C37D\<rparr> :: temp_msg"
  have l: "length (ack_text ?m) = 130" by (rule ack_text_1e100)
  then have b: "length (fst (snprintf REPLY_SIZE (ack_text ?m))) = 128"
    by (simp add: snprintf_fields REPLY_SIZE_def)
  have "fst (snprintf REPLY_SIZE (ack_text ?m)) \<noteq> ack_text ?m @ [NUL]"
  proof
    assume "fst (snprintf REPLY_SIZE (ack_text ?m)) = ack_text ?m @ [NUL]"
    then have "length (fst (snprintf REPLY_SIZE (ack_text ?m))) = length (ack_text ?m @ [NUL])"
      by simp
    with b l show False by simp
  qed
  with l b show ?thesis by blast
qed

section \<open>C4: bounds of the window and the place of its oldest entry\<close>

text \<open>
  C4, as amended. In every state reached by pushes from the initial empty window,
  \<open>0 \<le> count \<le> MAX_SAMPLES\<close> and \<open>0 \<le> head < MAX_SAMPLES\<close>; the oldest entry is
  \<open>count\<close> slots behind the next-write position \<open>head\<close>, modulo \<open>MAX_SAMPLES\<close>, which
  is \<open>MAX_SAMPLES\<close> slots behind once the window is full; and that slot holds the oldest
  value still retained.
\<close>

theorem window_invariant:
  "0 \<le> count (pushes vs) \<and> count (pushes vs) \<le> MAX_SAMPLES \<and>
   0 \<le> head (pushes vs) \<and> head (pushes vs) < MAX_SAMPLES \<and>
   oldest_index (pushes vs) = (head (pushes vs) - count (pushes vs)) mod MAX_SAMPLES \<and>
   (count (pushes vs) = MAX_SAMPLES \<longrightarrow>
      oldest_index (pushes vs) = (head (pushes vs) - MAX_SAMPLES) mod MAX_SAMPLES) \<and>
   (vs \<noteq> [] \<longrightarrow>
      samples (pushes vs) ! nat (oldest_index (pushes vs))
        = vs ! (length vs - nat (count (pushes vs))))"
proof -
  have wf: "wf_buf (pushes vs)" by (rule wf_buf_pushes)
  then have "0 \<le> count (pushes vs)" "count (pushes vs) \<le> MAX_SAMPLES"
    "0 \<le> head (pushes vs)" "head (pushes vs) < MAX_SAMPLES"
    by (simp_all add: wf_buf_def)
  moreover note oldest_index_eq [OF wf]
  moreover have "vs \<noteq> [] \<longrightarrow>
      samples (pushes vs) ! nat (oldest_index (pushes vs))
        = vs ! (length vs - nat (count (pushes vs)))"
    by (simp add: oldest_sample)
  ultimately show ?thesis by simp
qed

text \<open>C4, witness: a window of two entries, and a full window of 1024 entries.\<close>

theorem window_invariant_witness:
  "[0x4034000000000000, 0x4039000000000000] \<noteq> ([] :: double list) \<and>
   samples (pushes [0x4034000000000000, 0x4039000000000000])
     ! nat (oldest_index (pushes [0x4034000000000000, 0x4039000000000000])) = 0x4034000000000000 \<and>
   count (pushes (replicate 1024 0x4034000000000000)) = MAX_SAMPLES \<and>
   oldest_index (pushes (replicate 1024 0x4034000000000000))
     = (head (pushes (replicate 1024 0x4034000000000000)) - MAX_SAMPLES) mod MAX_SAMPLES"
proof -
  let ?vs = "[0x4034000000000000, 0x4039000000000000] :: double list"
  let ?ws = "replicate 1024 0x4034000000000000 :: double list"
  have ne: "?vs \<noteq> []" by simp
  have "?vs \<noteq> [] \<longrightarrow> samples (pushes ?vs) ! nat (oldest_index (pushes ?vs))
          = ?vs ! (length ?vs - nat (count (pushes ?vs)))"
    using window_invariant [of ?vs] by blast
  with ne have 1: "samples (pushes ?vs) ! nat (oldest_index (pushes ?vs)) = 0x4034000000000000"
    by (simp add: count_pushes MAX_SAMPLES_def)
  have full: "count (pushes ?ws) = MAX_SAMPLES"
    by (simp add: count_pushes MAX_SAMPLES_def)
  have "count (pushes ?ws) = MAX_SAMPLES \<longrightarrow>
          oldest_index (pushes ?ws) = (head (pushes ?ws) - MAX_SAMPLES) mod MAX_SAMPLES"
    using window_invariant [of ?ws] by blast
  with full have 2: "oldest_index (pushes ?ws) = (head (pushes ?ws) - MAX_SAMPLES) mod MAX_SAMPLES"
    by blast
  from ne 1 full 2 show ?thesis by blast
qed

text \<open>
  C4, as stated, fails while the window is not full: after one push the oldest entry is
  in slot 0, and the slot \<open>MAX_SAMPLES\<close> behind \<open>head\<close> is slot 1, never written.
\<close>

theorem oldest_not_capacity_behind:
  "oldest_index (pushes [0x4034000000000000]) = 0 \<and>
   (head (pushes [0x4034000000000000]) - MAX_SAMPLES) mod MAX_SAMPLES = 1 \<and>
   oldest_index (pushes [0x4034000000000000])
     \<noteq> (head (pushes [0x4034000000000000]) - MAX_SAMPLES) mod MAX_SAMPLES"
  by (simp add: oldest_index_eq wf_buf_pushes head_pushes count_pushes MAX_SAMPLES_def)

section \<open>C5: two publish cycles with no reading between them\<close>

text \<open>
  C5, as amended. A publish cycle computes the aggregate and later writes it. Let no
  reading be accepted from the aggregate computation of one cycle to the aggregate
  computation of the next (\<open>acts1\<close> and \<open>acts2\<close> hold receive failures only; after the
  second computation any rounds \<open>acts3\<close> of the message loop may run), and let the
  second write come a full period after the first. Then the second cycle writes the same
  average, minimum, maximum and count as the first, and \<open>last_updated\<close> moves from the
  clock reading \<open>t1\<close> of the first write to the later \<open>t2\<close> of the second.
\<close>

theorem idle_period_republishes_same_stats:
  assumes "\<forall>a\<in>set acts1. failed a" "\<forall>a\<in>set acts2. failed a"
    and "\<forall>a\<in>set acts3. is_receive a" "t1 + PERIOD_SECONDS \<le> t2"
  shows "avg (shm_stats (publish_cycle (run (publish_cycle st acts1 t1) acts2) acts3 t2))
           = avg (shm_stats (publish_cycle st acts1 t1)) \<and>
         minimum (shm_stats (publish_cycle (run (publish_cycle st acts1 t1) acts2) acts3 t2))
           = minimum (shm_stats (publish_cycle st acts1 t1)) \<and>
         maximum (shm_stats (publish_cycle (run (publish_cycle st acts1 t1) acts2) acts3 t2))
           = maximum (shm_stats (publish_cycle st acts1 t1)) \<and>
         shm_count (shm_stats (publish_cycle (run (publish_cycle st acts1 t1) acts2) acts3 t2))
           = shm_count (shm_stats (publish_cycle st acts1 t1)) \<and>
         last_updated (shm_stats (publish_cycle st acts1 t1)) = t1 \<and>
         last_updated (shm_stats (publish_cycle (run (publish_cycle st acts1 t1) acts2) acts3 t2))
           = t2 \<and>
         last_updated (shm_stats (publish_cycle st acts1 t1))
           < last_updated (shm_stats (publish_cycle (run (publish_cycle st acts1 t1) acts2) acts3 t2))"
proof -
  have r1: "\<forall>a\<in>set acts1. is_receive a"
    using assms(1) by (blast intro: failed_is_receive)
  have "buffer (run (publish_cycle st acts1 t1) acts2) = buffer (publish_cycle st acts1 t1)"
    using run_failed [OF assms(2)] by blast
  then have b: "buffer (run (publish_cycle st acts1 t1) acts2) = buffer st"
    by (simp add: publish_cycle_buffer [OF assms(1)])
  have "t1 < t2" using assms(4) by (simp add: PERIOD_SECONDS_def)
  then show ?thesis
    by (simp add: publish_cycle_writes [OF r1] publish_cycle_writes [OF assms(3)] b)
qed

text \<open>
  C5, witness: the reading 22.5 is in the window; the first cycle computes, a receive
  fails, and the cycle writes at clock reading 102; a receive fails; the second cycle
  computes, another reading is accepted, and the cycle writes at 107. Both cycles
  write the count 1 and the minimum 22.5.
\<close>

theorem idle_period_republishes_same_stats_witness:
  "failed (Receive (- 1) \<lparr>mtype = 0, pid = 0, temp = 0\<rparr> 101) \<and>
   failed (Receive (- 1) \<lparr>mtype = 0, pid = 0, temp = 0\<rparr> 104) \<and>
   is_receive (Receive 6 \<lparr>mtype = 1, pid = 8, temp = 0x4039000000000000\<rparr> 106) \<and>
   (102 :: int) + PERIOD_SECONDS \<le> 107 \<and>
   shm_count (shm_stats (publish_cycle
       (run (server_init 0) [Receive 5 \<lparr>mtype = 1, pid = 7, temp = 0x4036800000000000\<rparr> 100])
       [Receive (- 1) \<lparr>mtype = 0, pid = 0, temp = 0\<rparr> 101] 102)) = 1 \<and>
   shm_count (shm_stats (publish_cycle
       (run (publish_cycle
          (run (server_init 0) [Receive 5 \<lparr>mtype = 1, pid = 7, temp = 0x4036800000000000\<rparr> 100])
          [Receive (- 1) \<lparr>mtype = 0, pid = 0, temp = 0\<rparr> 101] 102)
          [Receive (- 1) \<lparr>mtype = 0, pid = 0, temp = 0\<rparr> 104])
       [Receive 6 \<lparr>mtype = 1, pid = 8, temp = 0x4039000000000000\<rparr> 106] 107)) = 1 \<and>
   minimum (shm_stats (publish_cycle
       (run (publish_cycle
          (run (server_init 0) [Receive 5 \<lparr>mtype = 1, pid = 7, temp = 0x4036800000000000\<rparr> 100])
          [Receive (- 1) \<lparr>mtype = 0, pid = 0, temp = 0\<rparr> 101] 102)
          [Receive (- 1) \<lparr>mtype = 0, pid = 0, temp = 0\<rparr> 104])
       [Receive 6 \<lparr>mtype = 1, pid = 8, temp = 0x4039000000000000\<rparr> 106] 107))
     = 0x4036800000000000 \<and>
   last_updated (shm_stats (publish_cycle
       (run (publish_cycle
          (run (server_init 0) [Receive 5 \<lparr>mtype = 1, pid = 7, temp = 0x4036800000000000\<rparr> 100])
          [Receive (- 1) \<lparr>mtype = 0, pid = 0, temp = 0\<rparr> 101] 102)
          [Receive (- 1) \<lparr>mtype = 0, pid = 0, temp = 0\<rparr> 104])
       [Receive 6 \<lparr>mtype = 1, pid = 8, temp = 0x4039000000000000\<rparr> 106] 107)) = 107"
proof -
  let ?st = "run (server_init 0) [Receive 5 \<lparr>mtype = 1, pid = 7, temp = 0x4036800000000000\<rparr> 100]"
  let ?a1 = "[Receive (- 1) \<lparr>mtype = 0, pid = 0, temp = 0\<rparr> 101]"
  let ?a2 = "[Receive (- 1) \<lparr>mtype = 0, pid = 0, temp = 0\<rparr> 104]"
  let ?a3 = "[Receive 6 \<lparr>mtype = 1, pid = 8, temp = 0x4039000000000000\<rparr> 106]"
  have f1: "\<forall>a\<in>set ?a1. failed a" and f2: "\<forall>a\<in>set ?a2. failed a"
    and r3: "\<forall>a\<in>set ?a3. is_receive a" by simp_all
  have p: "(102 :: int) + PERIOD_SECONDS \<le> 107" by (simp add: PERIOD_SECONDS_def)
  have r1: "\<forall>a\<in>set ?a1. is_receive a" by simp
  have b: "buffer ?st = pushes [0x4036800000000000]" by (rule buffer_after_one_reading)
  have pos: "0 < count (pushes [0x4036800000000000])" by (simp add: count_pushes MAX_SAMPLES_def)
  have c1: "shm_count (shm_stats (publish_cycle ?st ?a1 102)) = 1"
    by (simp add: publish_cycle_writes [OF r1] stat_count_compute b count_pushes MAX_SAMPLES_def)
  have "stat_min (buffer_compute_stats (pushes [0x4036800000000000]))
          \<in> set (retained (pushes [0x4036800000000000]))"
    using compute_stats_wf(3) [OF wf_buf_pushes pos] .
  then have m1: "minimum (shm_stats (publish_cycle ?st ?a1 102)) = 0x4036800000000000"
    by (simp add: publish_cycle_writes [OF r1] b retained_pushes MAX_SAMPLES_def)
  from idle_period_republishes_same_stats [OF f1 f2 r3 p, of ?st] c1 m1
  have "shm_count (shm_stats (publish_cycle (run (publish_cycle ?st ?a1 102) ?a2) ?a3 107)) = 1"
    and "minimum (shm_stats (publish_cycle (run (publish_cycle ?st ?a1 102) ?a2) ?a3 107))
           = 0x4036800000000000"
    and "last_updated (shm_stats (publish_cycle (run (publish_cycle ?st ?a1 102) ?a2) ?a3 107))
           = 107"
    by simp_all
  with c1 p show ?thesis by simp
qed

text \<open>
  C5, as stated, fails when a reading is accepted between the aggregate computation
  of a cycle and its write. The reading 22.5 is in the window; the first cycle computes
  the count 1, the reading 25.0 is accepted, and the cycle writes the count 1 at clock
  reading 102. A full period with one receive failure and no reading follows. The
  second cycle then computes and writes, at 107, the count 2.
\<close>

theorem idle_period_republishes_new_count:
  "failed (Receive (- 1) \<lparr>mtype = 0, pid = 0, temp = 0\<rparr> 104) \<and>
   (102 :: int) + PERIOD_SECONDS \<le> 107 \<and>
   shm_count (shm_stats (publish_cycle
       (run (server_init 0) [Receive 5 \<lparr>mtype = 1, pid = 7, temp = 0x4036800000000000\<rparr> 100])
       [Receive 6 \<lparr>mtype = 1, pid = 8, temp = 0x4039000000000000\<rparr> 101] 102)) = 1 \<and>
   shm_count (shm_stats (publish_cycle
       (run (publish_cycle
          (run (server_init 0) [Receive 5 \<lparr>mtype = 1, pid = 7, temp = 0x4036800000000000\<rparr> 100])
          [Receive 6 \<lparr>mtype = 1, pid = 8, temp = 0x4039000000000000\<rparr> 101] 102)
          [Receive (- 1) \<lparr>mtype = 0, pid = 0, temp = 0\<rparr> 104])
       [] 107)) = 2"
proof -
  let ?st = "run (server_init 0) [Receive 5 \<lparr>mtype = 1, pid = 7, temp = 0x4036800000000000\<rparr> 100]"
  let ?a1 = "[Receive 6 \<lparr>mtype = 1, pid = 8, temp = 0x4039000000000000\<rparr> 101]"
  let ?a2 = "[Receive (- 1) \<lparr>mtype = 0, pid = 0, temp = 0\<rparr> 104]"
  have r1: "\<forall>a\<in>set ?a1. is_receive a" and f2: "\<forall>a\<in>set ?a2. failed a"
    and r0: "\<forall>a\<in>set ([] :: action list). is_receive a" by simp_all
  have b: "buffer ?st = pushes [0x4036800000000000]" by (rule buffer_after_one_reading)
  have c1: "shm_count (shm_stats (publish_cycle ?st ?a1 102)) = 1"
    by (simp add: publish_cycle_writes [OF r1] stat_count_compute b count_pushes MAX_SAMPLES_def)
  have "buffer (publish_cycle ?st ?a1 102) = buffer_push (buffer ?st) 0x4039000000000000"
    by (simp add: publish_cycle_def run_Cons run_Nil timer_publish_fields timer_compute_fields
        listener_accepted)
  then have "buffer (run (publish_cycle ?st ?a1 102) ?a2) = pushes [0x4036800000000000, 0x4039000000000000]"
    using run_failed [OF f2, of "publish_cycle ?st ?a1 102"] by (simp add: b pushes_def)
  then have c2: "shm_count (shm_stats (publish_cycle (run (publish_cycle ?st ?a1 102) ?a2) [] 107)) = 2"
    by (simp add: publish_cycle_writes [OF r0] stat_count_compute count_pushes MAX_SAMPLES_def)
  have "(102 :: int) + PERIOD_SECONDS \<le> 107" by (simp add: PERIOD_SECONDS_def)
  with c1 c2 show ?thesis by simp
qed

section \<open>C6: the listener's update of the shared block\<close>

text \<open>
  C6. A round of the message loop leaves the average, the minimum, the maximum and the
  count of the shared block as they were; for an accepted reading (\<open>rcvid \<noteq> -1\<close>) it
  sets \<open>last_updated\<close> to the clock reading of that round.
\<close>

theorem listener_touches_only_timestamp:
  "avg (shm_stats (listener_iter st rcvid rmsg now)) = avg (shm_stats st) \<and>
   minimum (shm_stats (listener_iter st rcvid rmsg now)) = minimum (shm_stats st) \<and>
   maximum (shm_stats (listener_iter st rcvid rmsg now)) = maximum (shm_stats st) \<and>
   shm_count (shm_stats (listener_iter st rcvid rmsg now)) = shm_count (shm_stats st) \<and>
   (rcvid \<noteq> - 1 \<longrightarrow> last_updated (shm_stats (listener_iter st rcvid rmsg now)) = now)"
proof (cases "rcvid = - 1")
  case True
  then show ?thesis by (simp add: listener_failed emit_fields)
next
  case False
  then show ?thesis by (simp add: listener_accepted)
qed

text \<open>C6, witness: a reading accepted with \<open>rcvid = 5\<close> at clock reading 42.\<close>

theorem listener_touches_only_timestamp_witness:
  "(5 :: int) \<noteq> - 1 \<and>
   avg (shm_stats (listener_iter (server_init 0) 5 \<lparr>mtype = 1, pid = 7, temp = 0x4036800000000000\<rparr> 42)) = 0 \<and>
   last_updated (shm_stats (listener_iter (server_init 0) 5 \<lparr>mtype = 1, pid = 7, temp = 0x4036800000000000\<rparr> 42)) = 42"
  using listener_touches_only_timestamp
          [of "server_init 0" 5 "\<lparr>mtype = 1, pid = 7, temp = 0x4036800000000000\<rparr>" 42]
  by (simp add: server_init_def)

section \<open>C7: the push comes before the reply\<close>

text \<open>
  C7. Let a reading be accepted in a state \<open>st\<close> of a run from the initial state, and
  let any steps of the timer thread fall between the parts of the round. In the state
  in which \<^verbatim>\<open>MsgReply\<close> is called, the window holds the entries it held in \<open>st\<close>, without
  the oldest one if it was full, followed by the reading's temperature as the newest
  entry, and no reply has been sent since \<open>st\<close>; the call of \<^verbatim>\<open>MsgReply\<close> then adds the
  reply to the trace and leaves the buffer as it is. An uninterrupted round is these
  parts in a row, and in the trace of every run every \<^verbatim>\<open>MsgReply\<close> has an earlier
  \<^verbatim>\<open>buffer_push\<close> of its own.
\<close>

theorem push_precedes_reply:
  assumes "st = run (server_init t0) acts" "rcvid \<noteq> - 1"
    and "\<forall>a\<in>set ts0. is_timer a" "\<forall>a\<in>set ts1. is_timer a" "\<forall>a\<in>set ts2. is_timer a"
  shows "retained (buffer (before_reply st rmsg now ts0 ts1 ts2)) =
           (if count (buffer st) < MAX_SAMPLES then retained (buffer st) @ [temp rmsg]
            else tl (retained (buffer st)) @ [temp rmsg]) \<and>
         last (retained (buffer (before_reply st rmsg now ts0 ts1 ts2))) = temp rmsg \<and>
         filter is_reply (trace (before_reply st rmsg now ts0 ts1 ts2))
           = filter is_reply (trace st) \<and>
         trace (listener_reply rcvid rmsg (before_reply st rmsg now ts0 ts1 ts2)) =
           trace (before_reply st rmsg now ts0 ts1 ts2) @
           [MsgReply rcvid (fst (snprintf REPLY_SIZE (ack_text rmsg)))
                     (snd (snprintf REPLY_SIZE (ack_text rmsg)) + 1)] \<and>
         buffer (listener_reply rcvid rmsg (before_reply st rmsg now ts0 ts1 ts2))
           = buffer (before_reply st rmsg now ts0 ts1 ts2) \<and>
         listener_iter st rcvid rmsg now
           = listener_reply rcvid rmsg (before_reply st rmsg now [] [] []) \<and>
         pending 0 (trace st) = Some 0"
proof -
  have wf: "wf_buf (buffer st)"
    unfolding assms(1) by (rule wf_buf_run) (rule wf_buf_server_init)
  let ?l = "run (listener_log rmsg st) ts0"
  let ?p = "run (listener_push rmsg ?l) ts1"
  have b0: "buffer ?l = buffer st"
    using run_timers [OF assms(3), of "listener_log rmsg st"] by (simp add: listener_parts_fields)
  have t0: "filter is_reply (trace ?l) = filter is_reply (trace st)"
    using run_timers [OF assms(3), of "listener_log rmsg st"] by (simp add: listener_parts_fields)
  have b1: "buffer ?p = buffer_push (buffer st) (temp rmsg)"
    using run_timers [OF assms(4), of "listener_push rmsg ?l"]
    by (simp add: listener_parts_fields b0)
  have t1: "filter is_reply (trace ?p) = filter is_reply (trace st)"
    using run_timers [OF assms(4), of "listener_push rmsg ?l"]
    by (simp add: listener_parts_fields t0)
  have b: "buffer (before_reply st rmsg now ts0 ts1 ts2) = buffer_push (buffer st) (temp rmsg)"
    using run_timers [OF assms(5), of "listener_touch now ?p"]
    by (simp add: before_reply_def listener_parts_fields b1)
  have t: "filter is_reply (trace (before_reply st rmsg now ts0 ts1 ts2))
             = filter is_reply (trace st)"
    using run_timers [OF assms(5), of "listener_touch now ?p"]
    by (simp add: before_reply_def listener_parts_fields t1)
  have r: "retained (buffer (before_reply st rmsg now ts0 ts1 ts2)) =
           (if count (buffer st) < MAX_SAMPLES then retained (buffer st) @ [temp rmsg]
            else tl (retained (buffer st)) @ [temp rmsg])"
  proof (cases "count (buffer st) < MAX_SAMPLES")
    case True
    with wf show ?thesis by (simp add: b retained_push_partial)
  next
    case False
    with wf have "count (buffer st) = MAX_SAMPLES" by (simp add: wf_buf_def)
    with wf False show ?thesis by (simp add: b retained_push_full)
  qed
  then have l: "last (retained (buffer (before_reply st rmsg now ts0 ts1 ts2))) = temp rmsg"
    by simp
  have i: "listener_iter st rcvid rmsg now
             = listener_reply rcvid rmsg (before_reply st rmsg now [] [] [])"
    using assms(2) by (simp add: before_reply_def run_Nil listener_iter_parts)
  have "pending 0 (trace (server_init t0)) = Some 0" by (simp add: server_init_def)
  then have p: "pending 0 (trace st) = Some 0"
    unfolding assms(1) by (rule pending_run)
  from r l t i p show ?thesis by (simp add: listener_parts_fields)
qed

text \<open>C7, witness: the reading 22.5 accepted in the initial state, with the aggregate
  computation of the timer thread after the push and its write after the touch.\<close>

theorem push_precedes_reply_witness:
  "server_init 0 = run (server_init 0) [] \<and> (5 :: int) \<noteq> - 1 \<and>
   is_timer TimerCompute \<and> is_timer (TimerPublish 43) \<and>
   retained (buffer (before_reply (server_init 0)
       \<lparr>mtype = 1, pid = 7, temp = 0x4036800000000000\<rparr> 42 [] [TimerCompute] [TimerPublish 43]))
     = [0x4036800000000000] \<and>
   last (retained (buffer (before_reply (server_init 0)
       \<lparr>mtype = 1, pid = 7, temp = 0x4036800000000000\<rparr> 42 [] [TimerCompute] [TimerPublish 43])))
     = 0x4036800000000000 \<and>
   filter is_reply (trace (before_reply (server_init 0)
       \<lparr>mtype = 1, pid = 7, temp = 0x4036800000000000\<rparr> 42 [] [TimerCompute] [TimerPublish 43]))
     = []"
proof -
  let ?m = "\<lparr>mtype = 1, pid = 7, temp = 0x4036800000000000\<rparr> :: temp_msg"
  have s: "server_init 0 = run (server_init 0) []" by (simp add: run_Nil)
  have r: "(5 :: int) \<noteq> - 1" by simp
  have t0: "\<forall>a\<in>set ([] :: action list). is_timer a"
    and t1: "\<forall>a\<in>set [TimerCompute]. is_timer a"
    and t2: "\<forall>a\<in>set [TimerPublish 43]. is_timer a"
    by simp_all
  have c: "count (buffer (server_init 0)) < MAX_SAMPLES"
    by (simp add: server_init_def buffer_init_def MAX_SAMPLES_def)
  have e: "retained (buffer (server_init 0)) = []"
    by (simp add: server_init_def buffer_init_def retained_def)
  have tr: "trace (server_init 0) = []" by (simp add: server_init_def)
  from push_precedes_reply [OF s r t0 t1 t2, of ?m 42] c e tr
  have "retained (buffer (before_reply (server_init 0) ?m 42 [] [TimerCompute] [TimerPublish 43]))
          = [0x4036800000000000]"
    and "last (retained (buffer
           (before_reply (server_init 0) ?m 42 [] [TimerCompute] [TimerPublish 43])))
          = 0x4036800000000000"
    and "filter is_reply (trace
           (before_reply (server_init 0) ?m 42 [] [TimerCompute] [TimerPublish 43])) = []"
    by simp_all
  with s r show ?thesis by simp
qed

section \<open>C8: a failed receive\<close>

text \<open>
  C8. When \<^verbatim>\<open>MsgReceive\<close> fails (\<open>rcvid = -1\<close>) the round calls \<^verbatim>\<open>perror\<close> and nothing
  else: the buffer and the shared block are as before, the trace grows by the
  \<^verbatim>\<open>perror\<close> call alone, so no push and no reply, and the loop goes on with the next
  receive.
\<close>

theorem failed_receive_only_logs:
  "buffer (listener_iter st (- 1) rmsg now) = buffer st \<and>
   shm_stats (listener_iter st (- 1) rmsg now) = shm_stats st \<and>
   trace (listener_iter st (- 1) rmsg now) = trace st @ [Perror ''MsgReceive''] \<and>
   run st (Receive (- 1) rmsg now # acts) = run (listener_iter st (- 1) rmsg now) acts"
  by (simp add: listener_failed emit_fields run_Cons)

section \<open>C9: the length passed to \<^verbatim>\<open>MsgReply\<close>\<close>

text \<open>
  C9. The bytes \<^verbatim>\<open>snprintf\<close> stores in \<^verbatim>\<open>reply_msg\<close> never pass the 128 bytes of the
  array and end with a NUL, but the length passed to \<^verbatim>\<open>MsgReply\<close> is
  \<^verbatim>\<open>written + 1\<close>, where \<^verbatim>\<open>written\<close> is the length of the whole text, stored or not:
  for producer id 7 and the temperature \<open>10\<^sup>1\<^sup>0\<^sup>0\<close> the call is \<^verbatim>\<open>MsgReply\<close> with
  length 131 on the array of 128 bytes.
\<close>

theorem reply_length_exceeds_buffer:
  "last (trace (listener_iter (server_init 0) 5
           \<lparr>mtype = 1, pid = 7, temp = 0x54B249AD2594C37D\<rparr> 42)) =
     MsgReply 5 (take 127 (ack_text \<lparr>mtype = 1, pid = 7, temp = 0x54B249AD2594C37D\<rparr>) @ [NUL]) 131 \<and>
   length (take 127 (ack_text \<lparr>mtype = 1, pid = 7, temp = 0x54B249AD2594C37D\<rparr>) @ [NUL])
     = REPLY_SIZE \<and>
   int REPLY_SIZE < 131"
  by (simp add: last_reply ack_text_1e100 REPLY_SIZE_def)

section \<open>C10: minimum and maximum of a non-empty window\<close>

text \<open>
  C10, as amended. In every well-formed non-empty state of the window (every state
  reached by pushes is well-formed), the minimum and the maximum returned are values
  among the retained entries, and when no retained entry is a NaN the minimum is below
  and the maximum above every retained entry, so that minimum \<open>\<le>\<close> maximum. The
  average returned is the rounded quotient of the rounded running sum.
\<close>

theorem extremes_are_retained:
  assumes "wf_buf b" "0 < count b"
  shows "stat_min (buffer_compute_stats b) \<in> set (retained b) \<and>
         stat_max (buffer_compute_stats b) \<in> set (retained b) \<and>
         stat_avg (buffer_compute_stats b) = ddiv (foldl dadd 0 (retained b)) (d_of_int (count b)) \<and>
         ((\<forall>v\<in>set (retained b). \<not> is_nan v) \<longrightarrow>
            dle (stat_min (buffer_compute_stats b)) (stat_max (buffer_compute_stats b)) \<and>
            (\<forall>v\<in>set (retained b). dle (stat_min (buffer_compute_stats b)) v \<and>
                                    dle v (stat_max (buffer_compute_stats b))))"
proof -
  note w = compute_stats_wf [OF assms]
  have "dle (stat_min (buffer_compute_stats b)) (stat_max (buffer_compute_stats b))"
    if "\<forall>v\<in>set (retained b). \<not> is_nan v"
    using w(5) [OF that] w(3) by blast
  with w show ?thesis by blast
qed

text \<open>C10, witness: the window after the pushes of 20.0 and 25.0.\<close>

theorem extremes_are_retained_witness:
  "wf_buf (pushes [0x4034000000000000, 0x4039000000000000]) \<and>
   0 < count (pushes [0x4034000000000000, 0x4039000000000000]) \<and>
   retained (pushes [0x4034000000000000, 0x4039000000000000])
     = [0x4034000000000000, 0x4039000000000000] \<and>
   \<not> is_nan 0x4034000000000000 \<and> \<not> is_nan 0x4039000000000000 \<and>
   stat_min (buffer_compute_stats (pushes [0x4034000000000000, 0x4039000000000000]))
     = 0x4034000000000000 \<and>
   stat_max (buffer_compute_stats (pushes [0x4034000000000000, 0x4039000000000000]))
     = 0x4039000000000000"
proof -
  let ?vs = "[0x4034000000000000, 0x4039000000000000] :: double list"
  let ?r = "buffer_compute_stats (pushes ?vs)"
  have wf: "wf_buf (pushes ?vs)" by (rule wf_buf_pushes)
  have pos: "0 < count (pushes ?vs)" by (simp add: count_pushes MAX_SAMPLES_def)
  have r: "retained (pushes ?vs) = ?vs" by (simp add: retained_pushes MAX_SAMPLES_def)
  have nn: "\<forall>v\<in>set (retained (pushes ?vs)). \<not> is_nan v"
    by (simp add: r sample_values_not_nan)
  from extremes_are_retained [OF wf pos] nn
  have mn: "stat_min ?r \<in> set ?vs" and mx: "stat_max ?r \<in> set ?vs"
    and b: "\<forall>v\<in>set ?vs. dle (stat_min ?r) v \<and> dle v (stat_max ?r)"
    unfolding r by blast+
  from b have "dle (stat_min ?r) 0x4034000000000000" by simp
  with mn have 1: "stat_min ?r = 0x4034000000000000"
    by (auto simp: sample_values_order)
  from b have "dle 0x4039000000000000 (stat_max ?r)" by simp
  with mx have 2: "stat_max ?r = 0x4039000000000000"
    by (auto simp: sample_values_order)
  from wf pos r sample_values_not_nan 1 2 show ?thesis by blast
qed

text \<open>
  C10, as stated, fails for the average: after three pushes of the double nearest to
  0.1 the maximum returned is that double and the average returned is the next double
  above it.
\<close>

theorem average_above_maximum:
  "0 < count (pushes [0x3FB999999999999A, 0x3FB999999999999A, 0x3FB999999999999A]) \<and>
   stat_max (buffer_compute_stats
      (pushes [0x3FB999999999999A, 0x3FB999999999999A, 0x3FB999999999999A])) = 0x3FB999999999999A \<and>
   stat_avg (buffer_compute_stats
      (pushes [0x3FB999999999999A, 0x3FB999999999999A, 0x3FB999999999999A])) = 0x3FB999999999999B \<and>
   \<not> dle (stat_avg (buffer_compute_stats
             (pushes [0x3FB999999999999A, 0x3FB999999999999A, 0x3FB999999999999A])))
          (stat_max (buffer_compute_stats
             (pushes [0x3FB999999999999A, 0x3FB999999999999A, 0x3FB999999999999A])))"
  using tenth_properties(5)
  by (simp add: three_tenths_stats stat_simps dle_def count_pushes MAX_SAMPLES_def)

end
